theory Spec2Isabelle
  imports Main "HOL-Library.Word"
begin

section \<open>JavaScript strings\<close>

text \<open>
  A JavaScript string is a sequence of UTF-16 code units; \<open>length\<close>, \<open>split\<close>, \<open>trim\<close>
  and the regular expressions of \<^verbatim>\<open>api/subscribe.js\<close> (none has the \<open>u\<close> flag) all work
  on code units. The em dash of the entry lines is the single code unit \<open>0x2014\<close>.
\<close>

type_synonym jschar = "16 word"
type_synonym jsstring = "jschar list"

text \<open>An ASCII literal of the source, as code units.\<close>

definition asc :: "string \<Rightarrow> jsstring" where
  "asc s = map of_char s"

text \<open>
  The class \<open>\s\<close> of a regular expression, which is also what \<open>trim\<close> and \<open>trimEnd\<close>
  strip: ECMAScript's WhiteSpace and LineTerminator code points.
\<close>

definition is_space :: "jschar \<Rightarrow> bool" where
  "is_space c =
     (c = 0x9 \<or> c = 0xA \<or> c = 0xB \<or> c = 0xC \<or> c = 0xD \<or> c = 0x20 \<or> c = 0xA0 \<or>
      c = 0x1680 \<or> (0x2000 \<le> c \<and> c \<le> 0x200A) \<or> c = 0x2028 \<or> c = 0x2029 \<or>
      c = 0x202F \<or> c = 0x205F \<or> c = 0x3000 \<or> c = 0xFEFF)"

text \<open>The characters that \<open>.\<close> does not match (no \<open>s\<close> flag): the line terminators.\<close>

definition is_line_terminator :: "jschar \<Rightarrow> bool" where
  "is_line_terminator c = (c = 0xA \<or> c = 0xD \<or> c = 0x2028 \<or> c = 0x2029)"

definition is_digit :: "jschar \<Rightarrow> bool" where
  "is_digit c = (0x30 \<le> c \<and> c \<le> 0x39)"

definition trimStart :: "jsstring \<Rightarrow> jsstring" where
  "trimStart s = dropWhile is_space s"

definition trimEnd :: "jsstring \<Rightarrow> jsstring" where
  "trimEnd s = rev (dropWhile is_space (rev s))"

definition trim :: "jsstring \<Rightarrow> jsstring" where
  "trim s = trimEnd (trimStart s)"

text \<open>
  The text that the UTF-8 encoding of a string decodes to: \<open>Buffer.from(s)\<close> encodes a
  surrogate that is not part of a pair (a high one followed by a low one) as U+FFFD,
  and keeps everything else.
\<close>

definition is_high :: "jschar \<Rightarrow> bool" where
  "is_high c = (0xD800 \<le> c \<and> c \<le> 0xDBFF)"

definition is_low :: "jschar \<Rightarrow> bool" where
  "is_low c = (0xDC00 \<le> c \<and> c \<le> 0xDFFF)"

fun toWellFormed :: "jsstring \<Rightarrow> jsstring" where
  "toWellFormed [] = []"
| "toWellFormed [c] = (if is_high c \<or> is_low c then [0xFFFD] else [c])"
| "toWellFormed (c # d # cs) =
     (if is_high c \<and> is_low d then c # d # toWellFormed cs
      else (if is_high c \<or> is_low c then 0xFFFD else c) # toWellFormed (d # cs))"

text \<open>
  \<open>s.split(sep)\<close> for a one-character separator: the pieces between the separators,
  so that the empty string gives one empty piece and a trailing separator a last
  empty piece.
\<close>

fun split_on :: "jschar \<Rightarrow> jsstring \<Rightarrow> jsstring list" where
  "split_on sep [] = [[]]"
| "split_on sep (c # cs) =
     (if c = sep then [] # split_on sep cs
      else (case split_on sep cs of [] \<Rightarrow> [[c]] | piece # pieces \<Rightarrow> (c # piece) # pieces))"

text \<open>
  The decimal rendering of a non-negative integer in a template literal (the number
  rendered is an array length plus one, far below the \<open>10^21\<close> from which JavaScript
  switches to exponent notation).
\<close>

fun decimal :: "nat \<Rightarrow> jsstring" where
  "decimal n = (if n < 10 then [0x30 + of_nat n] else decimal (n div 10) @ [0x30 + of_nat (n mod 10)])"

declare decimal.simps [simp del]

section \<open>The two regular expressions\<close>

text \<open>
  Both expressions of the source are a \<open>^\<close> followed by a sequence of items, each a
  character class, a greedy \<open>+\<close> of a character class, a group parenthesis or \<open>$\<close>.
  The matcher below is the backtracking matcher of ECMAScript on this fragment,
  anchored at the start of the input (the \<open>^\<close>): a greedy \<open>+\<close> first takes the longest
  run of its class and gives characters back one at a time until the rest of the
  pattern matches. It returns the input that was left at each group parenthesis.
\<close>

datatype cls = Digit | Space | AnyChar | Lit jschar | NotSpaceAt

fun accepts :: "cls \<Rightarrow> jschar \<Rightarrow> bool" where
  "accepts Digit c = is_digit c"
| "accepts Space c = is_space c"
| "accepts AnyChar c = (\<not> is_line_terminator c)"
| "accepts (Lit x) c = (c = x)"
| "accepts NotSpaceAt c = (\<not> is_space c \<and> c \<noteq> 0x40)"

datatype item = Single cls | Many1 cls | GroupOpen | GroupClose | EndOfInput

fun try_from :: "(jsstring \<Rightarrow> 'a option) \<Rightarrow> nat \<Rightarrow> jsstring \<Rightarrow> 'a option" where
  "try_from k 0 s = None"
| "try_from k (Suc n) s =
     (case k (drop (Suc n) s) of Some m \<Rightarrow> Some m | None \<Rightarrow> try_from k n s)"

fun rmatch :: "item list \<Rightarrow> jsstring \<Rightarrow> jsstring list option" where
  "rmatch [] s = Some []"
| "rmatch (Single a # r) [] = None"
| "rmatch (Single a # r) (c # t) = (if accepts a c then rmatch r t else None)"
| "rmatch (Many1 a # r) s = try_from (rmatch r) (length (takeWhile (accepts a) s)) s"
| "rmatch (GroupOpen # r) s = map_option ((#) s) (rmatch r s)"
| "rmatch (GroupClose # r) s = map_option ((#) s) (rmatch r s)"
| "rmatch (EndOfInput # r) s = (if s = [] then rmatch r s else None)"

text \<open>\<^verbatim>\<open>/^\d+\.\s+(.+@.+\..+)\s+\<emdash>\s+/\<close> of \<open>parseEmails\<close>.\<close>

definition entry_re :: "item list" where
  "entry_re =
     [Many1 Digit, Single (Lit 0x2E), Many1 Space,
      GroupOpen, Many1 AnyChar, Single (Lit 0x40), Many1 AnyChar, Single (Lit 0x2E),
      Many1 AnyChar, GroupClose,
      Many1 Space, Single (Lit 0x2014), Many1 Space]"

text \<open>\<^verbatim>\<open>/^[^\s@]+@[^\s@]+\.[^\s@]+$/\<close> of \<open>isValidEmail\<close>.\<close>

definition email_re :: "item list" where
  "email_re =
     [Many1 NotSpaceAt, Single (Lit 0x40), Many1 NotSpaceAt, Single (Lit 0x2E),
      Many1 NotSpaceAt, EndOfInput]"

text \<open>\<open>line.match(re)\<close>, reduced to what the source reads of it: group 1, or no match.\<close>

definition line_match :: "jsstring \<Rightarrow> jsstring option" where
  "line_match line =
     (case rmatch entry_re line of
        Some [b, e] \<Rightarrow> Some (take (length b - length e) b)
      | _ \<Rightarrow> None)"

text \<open>\<open>re.test(s)\<close> for the validation pattern.\<close>

definition email_test :: "jsstring \<Rightarrow> bool" where
  "email_test s = (rmatch email_re s \<noteq> None)"

section \<open>The document codec\<close>

text \<open>
  \<open>String.prototype.toLowerCase\<close> follows the Unicode case tables, which are not part
  of the repository: every definition that lowercases takes the function as its
  parameter \<open>L\<close>. \<open>ascii_lower\<close> is the instance used on concrete ASCII inputs.
\<close>

definition ascii_lower :: "jsstring \<Rightarrow> jsstring" where
  "ascii_lower s = map (\<lambda>c. if 0x41 \<le> c \<and> c \<le> 0x5A then c + 0x20 else c) s"

text \<open>The loop of \<open>parseEmails\<close> over the lines, with the array \<open>emails\<close> it pushes to.\<close>

fun parse_lines :: "(jsstring \<Rightarrow> jsstring) \<Rightarrow> jsstring list \<Rightarrow> jsstring list \<Rightarrow> jsstring list" where
  "parse_lines L [] emails = emails"
| "parse_lines L (line # rest) emails =
     (case line_match line of
        Some m \<Rightarrow> parse_lines L rest (emails @ [L (trim m)])
      | None \<Rightarrow> parse_lines L rest emails)"

definition parseEmails :: "(jsstring \<Rightarrow> jsstring) \<Rightarrow> jsstring \<Rightarrow> jsstring list" where
  "parseEmails L mdContent = parse_lines L (split_on 0xA mdContent) []"

section \<open>Values of a request body\<close>

text \<open>
  \<open>req.body\<close> is whatever the platform parsed from the request: absent, or a JSON
  value. A number is kept as the string that \<open>ToString\<close> gives for it (it is falsy
  exactly when that string is \<open>0\<close> or \<open>NaN\<close>); an object as its list of properties.
\<close>

datatype js_value =
    JUndefined
  | JNull
  | JBool bool
  | JNum jsstring
  | JStr jsstring
  | JArr "js_value list"
  | JObj "(jsstring \<times> js_value) list"

fun join_comma :: "jsstring list \<Rightarrow> jsstring" where
  "join_comma [] = []"
| "join_comma [x] = x"
| "join_comma (x # y # ys) = x @ [0x2C] @ join_comma (y # ys)"

datatype js_error = FetchRejected | GetFailed nat | PutFailed nat | JsonRejected | TypeError

text \<open>The results of a list of steps, or the first exception among them.\<close>

fun collect :: "(js_error + 'a) list \<Rightarrow> js_error + 'a list" where
  "collect [] = Inr []"
| "collect (x # xs) =
     (case x of
        Inl e \<Rightarrow> Inl e
      | Inr v \<Rightarrow> (case collect xs of Inl e \<Rightarrow> Inl e | Inr vs \<Rightarrow> Inr (v # vs)))"

text \<open>
  \<open>ToString\<close>, which \<open>RegExp.prototype.test\<close> applies to its argument. An array is
  joined with commas, \<open>null\<close> and \<open>undefined\<close> elements giving the empty string. An
  object is converted by its \<open>toString\<close> method: the inherited one gives
  \<open>[object Object]\<close>, but an own property \<open>toString\<close> hides it, and as no value of a
  parsed body is callable (and \<open>valueOf\<close> gives no primitive) the conversion then
  throws a TypeError.
\<close>

fun to_string :: "js_value \<Rightarrow> js_error + jsstring" where
  "to_string JUndefined = Inr (asc ''undefined'')"
| "to_string JNull = Inr (asc ''null'')"
| "to_string (JBool b) = Inr (if b then asc ''true'' else asc ''false'')"
| "to_string (JNum s) = Inr s"
| "to_string (JStr s) = Inr s"
| "to_string (JArr vs) =
     (case collect (map (\<lambda>v. if v = JUndefined \<or> v = JNull then Inr [] else to_string v) vs) of
        Inl e \<Rightarrow> Inl e
      | Inr ss \<Rightarrow> Inr (join_comma ss))"
| "to_string (JObj kvs) =
     (case map_of kvs (asc ''toString'') of
        Some v \<Rightarrow> Inl TypeError
      | None \<Rightarrow> Inr (asc ''[object Object]''))"

fun truthy :: "js_value \<Rightarrow> bool" where
  "truthy JUndefined = False"
| "truthy JNull = False"
| "truthy (JBool b) = b"
| "truthy (JNum s) = (s \<noteq> asc ''0'' \<and> s \<noteq> asc ''NaN'')"
| "truthy (JStr s) = (s \<noteq> [])"
| "truthy (JArr vs) = True"
| "truthy (JObj kvs) = True"

text \<open>
  \<^verbatim>\<open>const { email } = req.body || {}\<close>: the property \<open>email\<close> of the body, \<open>undefined\<close>
  when the body is falsy, is not an object or has no such property.
\<close>

definition body_email :: "js_value \<Rightarrow> js_value" where
  "body_email b =
     (if truthy b then
        (case b of
           JObj kvs \<Rightarrow> (case map_of kvs (asc ''email'') of Some v \<Rightarrow> v | None \<Rightarrow> JUndefined)
         | _ \<Rightarrow> JUndefined)
      else JUndefined)"

text \<open>
  \<open>isValidEmail\<close>: the pattern is tested on \<open>ToString\<close> of the argument, which can
  throw, and only when it matches is \<open>email.length\<close> read: the length of a string,
  the number of elements of an array. A boolean or a number has no \<open>length\<close>, and
  \<open>undefined <= 254\<close> is false. For \<open>undefined\<close>, \<open>null\<close> and objects the test never
  succeeds (lemma \<open>test_fails\<close> below), so the right operand, which would throw or read
  a property, is never evaluated for them.
\<close>

definition isValidEmail :: "js_value \<Rightarrow> js_error + bool" where
  "isValidEmail email =
     (case to_string email of
        Inl e \<Rightarrow> Inl e
      | Inr s \<Rightarrow>
          Inr (if email_test s then
                 (case email of
                    JStr s \<Rightarrow> length s \<le> 254
                  | JArr vs \<Rightarrow> length vs \<le> 254
                  | _ \<Rightarrow> False)
               else False))"

text \<open>
  \<open>email.trim().toLowerCase()\<close>: only a string has a \<open>trim\<close> method; on any other
  value the call throws a TypeError.
\<close>

definition normalizedEmail :: "(jsstring \<Rightarrow> jsstring) \<Rightarrow> js_value \<Rightarrow> js_error + jsstring" where
  "normalizedEmail L email = (case email of JStr s \<Rightarrow> Inr (L (trim s)) | _ \<Rightarrow> Inl TypeError)"

section \<open>The store client\<close>

text \<open>
  The GitHub contents API is outside the repository. What \<open>res.json()\<close> gives is one
  of: a falsy value; a file object, with its content already decoded from base64 to
  text and its \<open>sha\<close> (if it has one); any other truthy value, on which
  \<open>Buffer.from(file.content, 'base64')\<close> throws. A response body that is not JSON
  (\<open>res.json()\<close> rejects) is \<open>None\<close>; a \<open>fetch\<close> that rejects is \<open>NetworkError\<close>.
\<close>

datatype json_value = JsonFalsy | JsonFile jsstring "jsstring option" | JsonOther

datatype http_response = NetworkError | HttpResponse nat "json_value option"

record put_body =
  content :: jsstring
  sha :: "jsstring option"

text \<open>
  Everything the handler takes from its environment, over a state \<open>'w\<close> of the world
  (the remote repository, the clock, the other writers): \<open>toLowerCase\<close>, the two
  HTTP calls, \<open>new Date().toISOString()\<close> and the passing of a \<open>setTimeout\<close> delay.
\<close>

record 'w platform =
  toLowerCase :: "jsstring \<Rightarrow> jsstring"
  fetch_get :: "'w \<Rightarrow> http_response \<times> 'w"
  fetch_put :: "put_body \<Rightarrow> 'w \<Rightarrow> http_response \<times> 'w"
  toISOString :: "'w \<Rightarrow> jsstring"
  setTimeout :: "nat \<Rightarrow> 'w \<Rightarrow> 'w"

definition ok :: "nat \<Rightarrow> bool" where
  "ok st = (200 \<le> st \<and> st \<le> 299)"

definition getFile :: "'w platform \<Rightarrow> 'w \<Rightarrow> (js_error + json_value) \<times> 'w" where
  "getFile P w =
     (case fetch_get P w of
        (NetworkError, w') \<Rightarrow> (Inl FetchRejected, w')
      | (HttpResponse st b, w') \<Rightarrow>
          if st = 404 then (Inr JsonFalsy, w')
          else if \<not> ok st then (Inl (GetFailed st), w')
          else (case b of None \<Rightarrow> (Inl JsonRejected, w') | Some j \<Rightarrow> (Inr j, w')))"

text \<open>
  The body of the PUT: \<^verbatim>\<open>...(sha && { sha })\<close> leaves a falsy \<open>sha\<close> out. The
  commit message is a constant and is left out. The content sent is the base64 form of
  \<open>Buffer.from(content)\<close>, the UTF-8 encoding of the text: the body holds the text that
  these bytes decode to, which is the text itself only when it has no unpaired
  surrogate.
\<close>

definition put_request :: "jsstring \<Rightarrow> jsstring option \<Rightarrow> put_body" where
  "put_request c s =
     \<lparr>content = toWellFormed c,
      sha = (case s of None \<Rightarrow> None | Some v \<Rightarrow> if v = [] then None else Some v)\<rparr>"

definition updateFile ::
  "'w platform \<Rightarrow> jsstring \<Rightarrow> jsstring option \<Rightarrow> 'w \<Rightarrow> (js_error + json_value) \<times> 'w" where
  "updateFile P c s w =
     (case fetch_put P (put_request c s) w of
        (NetworkError, w') \<Rightarrow> (Inl FetchRejected, w')
      | (HttpResponse st b, w') \<Rightarrow>
          if \<not> ok st then (Inl (PutFailed st), w')
          else (case b of None \<Rightarrow> (Inl JsonRejected, w') | Some j \<Rightarrow> (Inr j, w')))"

section \<open>The request handler\<close>

text \<open>The request: \<open>req.method\<close> and \<open>req.body\<close>.\<close>

record request =
  http_method :: string
  body :: js_value

datatype payload =
    NoBody
  | Count nat
  | Error string
  | ErrorCount string nat
  | MessageCount string nat

record response =
  headers :: "(string \<times> string) list"
  status :: nat
  payload :: payload

definition respond :: "nat \<Rightarrow> payload \<Rightarrow> response" where
  "respond st p =
     \<lparr>headers =
        [(''Access-Control-Allow-Origin'', ''*''),
         (''Access-Control-Allow-Methods'', ''GET, POST, OPTIONS''),
         (''Access-Control-Allow-Headers'', ''Content-Type'')],
      status = st, payload = p\<rparr>"

text \<open>What the handler does to the outside, in order.\<close>

datatype event = Fetch | Write put_body | Sleep nat | ConsoleError

text \<open>How a call of the handler ends.\<close>

datatype outcome = Responded response | Threw js_error | NoResponse

text \<open>
  The text written for a new entry: \<open>timestamp\<close> is the part of the ISO timestamp
  before its \<open>T\<close>, \<open>newLine\<close> the rendered entry line, \<open>updatedContent\<close> the document
  right-trimmed, a newline and the new line.
\<close>

definition timestamp :: "jsstring \<Rightarrow> jsstring" where
  "timestamp t = hd (split_on 0x54 t)"

definition newLine :: "nat \<Rightarrow> jsstring \<Rightarrow> jsstring \<Rightarrow> jsstring" where
  "newLine number n ts = decimal number @ asc ''. '' @ n @ [0x20, 0x2014, 0x20] @ ts @ [0xA]"

definition updatedContent :: "jsstring \<Rightarrow> nat \<Rightarrow> jsstring \<Rightarrow> jsstring \<Rightarrow> jsstring" where
  "updatedContent c number n ts = trimEnd c @ [0xA] @ newLine number n ts"

text \<open>
  The body of the \<open>try\<close> block, for the normalized email \<open>n\<close>: a response, or the
  exception that reaches the \<open>catch\<close>.
\<close>

definition attempt ::
  "'w platform \<Rightarrow> jsstring \<Rightarrow> 'w \<Rightarrow> (js_error + response) \<times> event list \<times> 'w" where
  "attempt P n w =
     (case getFile P w of
        (Inl e, w1) \<Rightarrow> (Inl e, [Fetch], w1)
      | (Inr JsonOther, w1) \<Rightarrow> (Inl TypeError, [Fetch], w1)
      | (Inr file, w1) \<Rightarrow>
          (let (c, s, emails) =
                 (case file of
                    JsonFile fc fs \<Rightarrow> (fc, fs, parseEmails (toLowerCase P) fc)
                  | _ \<Rightarrow> (asc ''# Waitlist Signups'' @ [0xA, 0xA], None, []))
           in if n \<in> set emails then
                (Inr (respond 409 (ErrorCount ''You're already on the waitlist!'' (length emails))),
                 [Fetch], w1)
              else
                (let number = length emails + 1;
                     new = updatedContent c number n (timestamp (toISOString P w1))
                 in case updateFile P new s w1 of
                      (Inl e, w2) \<Rightarrow> (Inl e, [Fetch, Write (put_request new s)], w2)
                    | (Inr j, w2) \<Rightarrow>
                        (Inr (respond 200
                               (MessageCount ''You're on the list! We'll be in touch soon.'' number)),
                         [Fetch, Write (put_request new s)], w2))))"

text \<open>The retry loop, from the value \<open>i\<close> of the counter \<open>attempt\<close>.\<close>

function retry :: "'w platform \<Rightarrow> jsstring \<Rightarrow> nat \<Rightarrow> 'w \<Rightarrow> outcome \<times> event list \<times> 'w" where
  "retry P n i w =
     (if i < 3 then
        (case attempt P n w of
           (Inr r, ev, w1) \<Rightarrow> (Responded r, ev, w1)
         | (Inl e, ev, w1) \<Rightarrow>
             if i = 2 then
               (Responded (respond 500 (Error ''Something went wrong. Please try again.'')),
                ev @ [ConsoleError], w1)
             else
               (case retry P n (i + 1) (setTimeout P 500 w1) of
                  (out, ev', w2) \<Rightarrow> (out, ev @ [Sleep 500] @ ev', w2)))
      else (NoResponse, [], w))"
  by pat_completeness auto
termination
  by (relation "measure (\<lambda>(P, n, i, w). 3 - i)") auto

declare retry.simps [simp del]

definition handler :: "'w platform \<Rightarrow> request \<Rightarrow> 'w \<Rightarrow> outcome \<times> event list \<times> 'w" where
  "handler P req w =
     (if http_method req = ''OPTIONS'' then (Responded (respond 200 NoBody), [], w)
      else if http_method req = ''GET'' then
        (case getFile P w of
           (Inr (JsonFile c s), w1) \<Rightarrow>
             (Responded (respond 200 (Count (length (parseEmails (toLowerCase P) c)))), [Fetch], w1)
         | (Inr JsonFalsy, w1) \<Rightarrow> (Responded (respond 200 (Count 0)), [Fetch], w1)
         | (_, w1) \<Rightarrow> (Responded (respond 200 (Count 0)), [Fetch], w1))
      else if http_method req \<noteq> ''POST'' then
        (Responded (respond 405 (Error ''Method not allowed'')), [], w)
      else
        (let email = body_email (body req)
         in if \<not> truthy email then
              (Responded (respond 400 (Error ''Please enter a valid email address.'')), [], w)
            else
              (case isValidEmail email of
                 Inl e \<Rightarrow> (Threw e, [], w)
               | Inr valid \<Rightarrow>
                   if \<not> valid then
                     (Responded (respond 400 (Error ''Please enter a valid email address.'')), [], w)
                   else
                     (case normalizedEmail (toLowerCase P) email of
                        Inl e \<Rightarrow> (Threw e, [], w)
                      | Inr n \<Rightarrow> retry P n 0 w))))"

section \<open>Reference environments\<close>

text \<open>
  Two concrete environments on which the handler can be run. \<open>mem_store\<close> is a remote
  document that honours the conditional write: a PUT is accepted when its \<open>sha\<close> is the
  one of the stored document (none when there is no document), and a GET returns what
  the last accepted PUT stored. \<open>down_store\<close> is a remote that rejects every call.
\<close>

record mem_world =
  document :: "(jsstring \<times> jsstring) option"
  clock :: jsstring
  version :: nat

definition mem_get :: "mem_world \<Rightarrow> http_response \<times> mem_world" where
  "mem_get w =
     (case document w of
        None \<Rightarrow> (HttpResponse 404 None, w)
      | Some (c, s) \<Rightarrow> (HttpResponse 200 (Some (JsonFile c (Some s))), w))"

definition mem_put :: "put_body \<Rightarrow> mem_world \<Rightarrow> http_response \<times> mem_world" where
  "mem_put b w =
     (if map_option snd (document w) = sha b then
        (HttpResponse (if document w = None then 201 else 200) (Some JsonOther),
         w\<lparr>document := Some (content b, 0x76 # decimal (version w)), version := version w + 1\<rparr>)
      else (HttpResponse 409 None, w))"

definition mem_store :: "(jsstring \<Rightarrow> jsstring) \<Rightarrow> mem_world platform" where
  "mem_store L =
     \<lparr>toLowerCase = L, fetch_get = mem_get, fetch_put = mem_put,
      toISOString = clock, setTimeout = (\<lambda>ms w. w)\<rparr>"


section \<open>The shape of an entry line\<close>

text \<open>
  What a pattern matches, read declaratively: the set of all ways to cut the input
  along the items, each way giving the inputs left at the group parentheses. The
  matcher \<open>rmatch\<close> returns one of them when there is one.
\<close>

fun sem :: "item list \<Rightarrow> jsstring \<Rightarrow> jsstring list set" where
  "sem [] s = {[]}"
| "sem (Single a # r) s = {m. \<exists>c t. s = c # t \<and> accepts a c \<and> m \<in> sem r t}"
| "sem (Many1 a # r) s =
     {m. \<exists>u v. s = u @ v \<and> u \<noteq> [] \<and> list_all (accepts a) u \<and> m \<in> sem r v}"
| "sem (GroupOpen # r) s = {m. \<exists>m'. m = s # m' \<and> m' \<in> sem r s}"
| "sem (GroupClose # r) s = {m. \<exists>m'. m = s # m' \<and> m' \<in> sem r s}"
| "sem (EndOfInput # r) s = {m. s = [] \<and> m \<in> sem r s}"

declare sem.simps [simp del]

text \<open>
  \<open>entry_prefix line m rest\<close>: the line is an integer, a dot, whitespace, the text \<open>m\<close>,
  whitespace, an em dash, whitespace and then \<open>rest\<close>, where \<open>m\<close> has an \<open>@\<close> with text
  before it and a later dot with text on both sides, and no line terminator.
\<close>

definition entry_prefix :: "jsstring \<Rightarrow> jsstring \<Rightarrow> jsstring \<Rightarrow> bool" where
  "entry_prefix line m rest \<longleftrightarrow>
     (\<exists>ds w1 a b c w2 w3.
        line = ds @ 0x2E # w1 @ m @ w2 @ 0x2014 # w3 @ rest \<and>
        m = a @ 0x40 # b @ 0x2E # c \<and>
        ds \<noteq> [] \<and> list_all is_digit ds \<and>
        w1 \<noteq> [] \<and> list_all is_space w1 \<and>
        a \<noteq> [] \<and> b \<noteq> [] \<and> c \<noteq> [] \<and> list_all (\<lambda>x. \<not> is_line_terminator x) m \<and>
        w2 \<noteq> [] \<and> list_all is_space w2 \<and>
        w3 \<noteq> [] \<and> list_all is_space w3)"

definition has_entry_prefix :: "jsstring \<Rightarrow> bool" where
  "has_entry_prefix line \<longleftrightarrow> (\<exists>m rest. entry_prefix line m rest)"

text \<open>
  The shape of an entry line in the words of the specification,
  \<^verbatim>\<open><integer>. <local>@<domain> \<emdash> <date>\<close>: the prefix above followed by a date,
  of which only that it is there is required.
\<close>

definition spec_entry_shape :: "jsstring \<Rightarrow> bool" where
  "spec_entry_shape line \<longleftrightarrow> (\<exists>m date. entry_prefix line m date \<and> date \<noteq> [])"

section \<open>The matcher returns a match exactly when there is one\<close>

lemma try_from_Some:
  "try_from k n s = Some m \<Longrightarrow> \<exists>j. 0 < j \<and> j \<le> n \<and> k (drop j s) = Some m"
proof (induction n)
  case 0
  then show ?case by simp
next
  case (Suc n)
  show ?case
  proof (cases "k (drop (Suc n) s)")
    case None
    with Suc.prems have "try_from k n s = Some m" by simp
    with Suc.IH obtain j where "0 < j" "j \<le> n" "k (drop j s) = Some m" by blast
    then show ?thesis by (intro exI[of _ j]) simp
  next
    case (Some x)
    with Suc.prems have "x = m" by simp
    with Some show ?thesis by (intro exI[of _ "Suc n"]) simp
  qed
qed

lemma try_from_None:
  "try_from k n s = None \<longleftrightarrow> (\<forall>j. 0 < j \<and> j \<le> n \<longrightarrow> k (drop j s) = None)"
proof (induction n)
  case 0
  then show ?case by simp
next
  case (Suc n)
  show ?case
  proof (cases "k (drop (Suc n) s)")
    case None
    then show ?thesis using Suc.IH
      by (auto simp: le_Suc_eq)
  next
    case (Some x)
    then show ?thesis by (auto intro: exI[of _ "Suc n"])
  qed
qed

lemma run_prefix:
  "j \<le> length (takeWhile P s) \<Longrightarrow> list_all P (take j s)"
proof (induction s arbitrary: j)
  case Nil
  then show ?case by simp
next
  case (Cons c s)
  then show ?case by (cases j) (auto split: if_splits)
qed

lemma prefix_run:
  "list_all P u \<Longrightarrow> length u \<le> length (takeWhile P (u @ v))"
  by (simp add: takeWhile_append2 list_all_iff)

lemma rmatch_sound: "rmatch p s = Some m \<Longrightarrow> m \<in> sem p s"
proof (induction p s arbitrary: m rule: rmatch.induct)
  case (1 s)
  then show ?case by (simp add: sem.simps)
next
  case (2 a r)
  then show ?case by (simp add: sem.simps)
next
  case (3 a r c t)
  then show ?case by (simp add: sem.simps split: if_splits)
next
  case (4 a r s)
  from "4.prems" have "try_from (rmatch r) (length (takeWhile (accepts a) s)) s = Some m"
    by simp
  then obtain j where j: "0 < j" "j \<le> length (takeWhile (accepts a) s)"
      "rmatch r (drop j s) = Some m"
    using try_from_Some[of "rmatch r" "length (takeWhile (accepts a) s)" s m] by blast
  have 1: "m \<in> sem r (drop j s)" using "4.IH" j(3) by blast
  have 2: "list_all (accepts a) (take j s)" using j(2) by (rule run_prefix)
  have "j \<le> length s" using j(2) length_takeWhile_le[of "accepts a" s] by linarith
  then have 3: "take j s \<noteq> []" using j(1) by (cases s) auto
  have 4: "s = take j s @ drop j s" by simp
  show ?case
    unfolding sem.simps using 1 2 3 4 by blast
next
  case (5 r s)
  then show ?case by (auto simp add: sem.simps map_option_case split: option.splits)
next
  case (6 r s)
  then show ?case by (auto simp add: sem.simps map_option_case split: option.splits)
next
  case (7 r s)
  then show ?case by (simp add: sem.simps split: if_splits)
qed

lemma rmatch_complete: "m \<in> sem p s \<Longrightarrow> rmatch p s \<noteq> None"
proof (induction p s arbitrary: m rule: rmatch.induct)
  case (1 s)
  then show ?case by simp
next
  case (2 a r)
  then show ?case by (simp add: sem.simps)
next
  case (3 a r c t)
  then show ?case by (auto simp: sem.simps)
next
  case (4 a r s)
  from "4.prems" have "\<exists>u v. s = u @ v \<and> u \<noteq> [] \<and> list_all (accepts a) u \<and> m \<in> sem r v"
    by (simp add: sem.simps)
  then obtain u v where uv: "s = u @ v" "u \<noteq> []" "list_all (accepts a) u" "m \<in> sem r v"
    by blast
  have "rmatch r v \<noteq> None" using "4.IH"[OF uv(4)] .
  then have 1: "rmatch r (drop (length u) s) \<noteq> None" using uv(1) by simp
  have 2: "length u \<le> length (takeWhile (accepts a) s)"
    using prefix_run[OF uv(3), of v] uv(1) by simp
  have 3: "0 < length u" using uv(2) by simp
  have "try_from (rmatch r) (length (takeWhile (accepts a) s)) s \<noteq> None"
  proof
    assume "try_from (rmatch r) (length (takeWhile (accepts a) s)) s = None"
    then have "rmatch r (drop (length u) s) = None"
      using 2 3 by (simp add: try_from_None)
    with 1 show False by simp
  qed
  then show ?case by simp
next
  case (5 r s)
  then show ?case by (auto simp: sem.simps)
next
  case (6 r s)
  then show ?case by (auto simp: sem.simps)
next
  case (7 r s)
  then show ?case by (auto simp: sem.simps)
qed

section \<open>The two patterns, declaratively\<close>

lemma accepts_eta:
  "accepts Digit = is_digit" "accepts Space = is_space"
  "accepts AnyChar = (\<lambda>x. \<not> is_line_terminator x)"
  "accepts NotSpaceAt = (\<lambda>x. \<not> is_space x \<and> x \<noteq> 0x40)"
  by (auto simp: fun_eq_iff)

lemma sem_entry_re:
  "ms \<in> sem entry_re line \<longleftrightarrow>
     (\<exists>ds w1 a b c w2 w3 rest.
        line = ds @ 0x2E # w1 @ a @ 0x40 # b @ 0x2E # c @ w2 @ 0x2014 # w3 @ rest \<and>
        ms = [a @ 0x40 # b @ 0x2E # c @ w2 @ 0x2014 # w3 @ rest, w2 @ 0x2014 # w3 @ rest] \<and>
        ds \<noteq> [] \<and> list_all is_digit ds \<and>
        w1 \<noteq> [] \<and> list_all is_space w1 \<and>
        a \<noteq> [] \<and> list_all (\<lambda>x. \<not> is_line_terminator x) a \<and>
        b \<noteq> [] \<and> list_all (\<lambda>x. \<not> is_line_terminator x) b \<and>
        c \<noteq> [] \<and> list_all (\<lambda>x. \<not> is_line_terminator x) c \<and>
        w2 \<noteq> [] \<and> list_all is_space w2 \<and>
        w3 \<noteq> [] \<and> list_all is_space w3)"
  apply (simp add: entry_re_def sem.simps accepts_eta)
  apply (rule iffI)
   apply clarify
   apply (intro exI conjI)
                  apply (rule refl | assumption)+
  apply clarify
  apply (intro exI conjI)
                      apply (rule refl | assumption)+
  done

lemma sem_email_re:
  "ms \<in> sem email_re s \<longleftrightarrow>
     (\<exists>a b c. s = a @ 0x40 # b @ 0x2E # c \<and> ms = [] \<and>
        a \<noteq> [] \<and> list_all (\<lambda>x. \<not> is_space x \<and> x \<noteq> 0x40) a \<and>
        b \<noteq> [] \<and> list_all (\<lambda>x. \<not> is_space x \<and> x \<noteq> 0x40) b \<and>
        c \<noteq> [] \<and> list_all (\<lambda>x. \<not> is_space x \<and> x \<noteq> 0x40) c)"
  apply (simp add: email_re_def sem.simps accepts_eta)
  apply (rule iffI)
   apply clarify
   apply (intro exI conjI)
                  apply (rule refl | assumption)+
  apply clarify
  apply (intro exI conjI)
                      apply (rule refl | assumption)+
  done

section \<open>Characters and decimal numbers\<close>

lemma line_terminator_space: "is_line_terminator c \<Longrightarrow> is_space c"
  by (auto simp: is_line_terminator_def is_space_def)

lemma space_facts:
  "is_space 0x20" "is_space 0xA" "\<not> is_space 0x2014" "\<not> is_space 0x2E" "\<not> is_space 0x40"
  "\<not> is_digit 0x2E"
  by (simp_all add: is_space_def is_digit_def)

lemma digit_char: "m < 10 \<Longrightarrow> is_digit (0x30 + of_nat m)"
proof -
  assume "m < 10"
  then have "m = 0 \<or> m = 1 \<or> m = 2 \<or> m = 3 \<or> m = 4 \<or> m = 5 \<or> m = 6 \<or> m = 7 \<or> m = 8 \<or> m = 9"
    by arith
  then show ?thesis
    by (elim disjE) (simp_all add: is_digit_def)
qed

lemma digit_not_space: "is_digit c \<Longrightarrow> \<not> is_space c"
proof
  assume d: "is_digit c" and s: "is_space c"
  from d have b: "0x30 \<le> c" "c \<le> 0x39" by (simp_all add: is_digit_def)
  have r: "\<not> 0x2000 \<le> c"
  proof
    assume "0x2000 \<le> c"
    then have "(0x2000 :: 16 word) \<le> 0x39" using b(2) by (rule order_trans)
    then show False by simp
  qed
  from s r b show False
    by (auto simp: is_space_def)
qed

lemma decimal_digits: "decimal k \<noteq> [] \<and> list_all is_digit (decimal k)"
proof (induction k rule: decimal.induct)
  case (1 n)
  show ?case
  proof (cases "n < 10")
    case True
    then show ?thesis by (simp add: decimal.simps[of n] digit_char)
  next
    case False
    then have "list_all is_digit (decimal (n div 10))" using 1 by simp
    moreover have "is_digit (0x30 + of_nat (n mod 10))" by (rule digit_char) simp
    ultimately show ?thesis using False by (simp add: decimal.simps[of n])
  qed
qed

lemma run_unique:
  assumes "list_all P u" "list_all P u'" "\<not> P x" "\<not> P x'" "u @ x # r = u' @ x' # r'"
  shows "u = u' \<and> x = x' \<and> r = r'"
proof -
  have 1: "takeWhile P (u @ x # r) = u" using assms(1,3) by (simp add: takeWhile_append2 list_all_iff)
  have 2: "takeWhile P (u' @ x' # r') = u'" using assms(2,4) by (simp add: takeWhile_append2 list_all_iff)
  from 1 2 assms(5) have "u = u'" by simp
  with assms(5) show ?thesis by simp
qed

section \<open>The rendered entry line is decoded to its email\<close>

lemma email_parts:
  assumes "email_test n"
  shows "\<exists>a b c. n = a @ 0x40 # b @ 0x2E # c \<and> a \<noteq> [] \<and> b \<noteq> [] \<and> c \<noteq> [] \<and>
           list_all (\<lambda>x. \<not> is_space x) n"
proof -
  from assms obtain ms where "rmatch email_re n = Some ms" by (auto simp: email_test_def)
  then have "ms \<in> sem email_re n" by (rule rmatch_sound)
  then obtain a b c where p: "n = a @ 0x40 # b @ 0x2E # c" "a \<noteq> []" "b \<noteq> []" "c \<noteq> []"
      "list_all (\<lambda>x. \<not> is_space x \<and> x \<noteq> 0x40) a"
      "list_all (\<lambda>x. \<not> is_space x \<and> x \<noteq> 0x40) b"
      "list_all (\<lambda>x. \<not> is_space x \<and> x \<noteq> 0x40) c"
    unfolding sem_email_re by blast
  have "list_all (\<lambda>x. \<not> is_space x) n"
    using p(1,5,6,7) space_facts by (auto simp: list_all_iff)
  with p(1-4) show ?thesis by blast
qed

lemma capture_unique:
  assumes n: "n \<noteq> []" "list_all (\<lambda>x. \<not> is_space x) n"
    and d: "list_all (\<lambda>x. \<not> is_space x) d"
    and eq: "M @ w2 @ 0x2014 # w3 @ rest = n @ 0x20 # 0x2014 # 0x20 # d"
    and w: "w2 \<noteq> []" "list_all is_space w2" "w3 \<noteq> []" "list_all is_space w3"
  shows "M = n"
proof -
  define X where "X = w2 @ 0x2014 # w3 @ rest"
  obtain y w2' where w2: "w2 = y # w2'" using w(1) by (cases w2) auto
  have y: "is_space y" using w(2) w2 by simp
  have X: "X = y # w2' @ 0x2014 # w3 @ rest" by (simp add: X_def w2)
  have nd: "\<And>x. x \<in> set d \<Longrightarrow> \<not> is_space x" using d by (simp add: list_all_iff)
  have nn: "\<And>x. x \<in> set n \<Longrightarrow> \<not> is_space x" using n(2) by (simp add: list_all_iff)
  have w3: "hd w3 \<in> set w3" "is_space (hd w3)"
    using w(3,4) by (auto simp: list_all_iff)
  from eq have "M @ X = n @ 0x20 # 0x2014 # 0x20 # d" by (simp add: X_def)
  then obtain us where
    "(M = n @ us \<and> us @ X = 0x20 # 0x2014 # 0x20 # d) \<or> (M @ us = n \<and> X = us @ 0x20 # 0x2014 # 0x20 # d)"
    unfolding append_eq_append_conv2 by blast
  then show ?thesis
  proof
    assume a: "M @ us = n \<and> X = us @ 0x20 # 0x2014 # 0x20 # d"
    have "us = []"
    proof (cases us)
      case Nil
      then show ?thesis .
    next
      case (Cons u us')
      with a X have "u = y" by simp
      moreover from a Cons have "u \<in> set n" by auto
      ultimately show ?thesis using y nn by blast
    qed
    with a show ?thesis by simp
  next
    assume a: "M = n @ us \<and> us @ X = 0x20 # 0x2014 # 0x20 # d"
    have "us = []"
    proof (cases us)
      case Nil
      then show ?thesis .
    next
      case c1: (Cons u1 us1)
      with a have e1: "us1 @ X = 0x2014 # 0x20 # d" by simp
      show ?thesis
      proof (cases us1)
        case Nil
        with e1 X have "y = 0x2014" by simp
        with y show ?thesis by (simp add: space_facts)
      next
        case c2: (Cons u2 us2)
        with e1 have e2: "us2 @ X = 0x20 # d" by simp
        show ?thesis
        proof (cases us2)
          case Nil
          with e2 X have "w2' @ 0x2014 # w3 @ rest = d" by simp
          then have "set w3 \<subseteq> set d" by auto
          with w3 nd show ?thesis by blast
        next
          case c3: (Cons u3 us3)
          with e2 have "us3 @ X = d" by simp
          then have "y \<in> set d" using X by auto
          with y nd show ?thesis by blast
        qed
      qed
    qed
    with a show ?thesis by simp
  qed
qed

lemma rendered_line_match:
  assumes v: "email_test n" and d: "list_all (\<lambda>x. \<not> is_space x) d"
  shows "line_match (decimal k @ asc ''. '' @ n @ [0x20, 0x2014, 0x20] @ d) = Some n"
proof -
  define line where "line = decimal k @ 0x2E # 0x20 # n @ 0x20 # 0x2014 # 0x20 # d"
  have line: "decimal k @ asc ''. '' @ n @ [0x20, 0x2014, 0x20] @ d = line"
    by (simp add: line_def asc_def)
  from email_parts[OF v] obtain a b c where p: "n = a @ 0x40 # b @ 0x2E # c"
      "a \<noteq> []" "b \<noteq> []" "c \<noteq> []" "list_all (\<lambda>x. \<not> is_space x) n"
    by blast
  have nn: "n \<noteq> []" using p(1) by simp
  have nl: "list_all (\<lambda>x. \<not> is_line_terminator x) n"
    using p(5) line_terminator_space by (auto simp: list_all_iff)
  have nla: "list_all (\<lambda>x. \<not> is_line_terminator x) a"
    and nlb: "list_all (\<lambda>x. \<not> is_line_terminator x) b"
    and nlc: "list_all (\<lambda>x. \<not> is_line_terminator x) c"
    using nl p(1) by simp_all
  have ex: "[n @ 0x20 # 0x2014 # 0x20 # d, 0x20 # 0x2014 # 0x20 # d] \<in> sem entry_re line"
    unfolding sem_entry_re
    apply (rule exI[of _ "decimal k"], rule exI[of _ "[0x20]"], rule exI[of _ a],
        rule exI[of _ b], rule exI[of _ c], rule exI[of _ "[0x20]"], rule exI[of _ "[0x20]"],
        rule exI[of _ d])
    using p(1-4) nla nlb nlc decimal_digits[of k] space_facts
    by (simp add: line_def)
  then have "rmatch entry_re line \<noteq> None" by (rule rmatch_complete)
  then obtain ms where ms: "rmatch entry_re line = Some ms" by blast
  then have "ms \<in> sem entry_re line" by (rule rmatch_sound)
  then obtain ds w1 a' b' c' w2 w3 rest where q:
      "line = ds @ 0x2E # w1 @ a' @ 0x40 # b' @ 0x2E # c' @ w2 @ 0x2014 # w3 @ rest"
      "ms = [a' @ 0x40 # b' @ 0x2E # c' @ w2 @ 0x2014 # w3 @ rest, w2 @ 0x2014 # w3 @ rest]"
      "ds \<noteq> []" "list_all is_digit ds" "w1 \<noteq> []" "list_all is_space w1"
      "a' \<noteq> []" "w2 \<noteq> []" "list_all is_space w2" "w3 \<noteq> []" "list_all is_space w3"
    unfolding sem_entry_re by blast
  define M where "M = a' @ 0x40 # b' @ 0x2E # c'"
  have s1: "w1 @ M @ w2 @ 0x2014 # w3 @ rest = 0x20 # n @ 0x20 # 0x2014 # 0x20 # d"
  proof -
    have "ds @ 0x2E # (w1 @ M @ w2 @ 0x2014 # w3 @ rest) =
          decimal k @ 0x2E # (0x20 # n @ 0x20 # 0x2014 # 0x20 # d)"
      using q(1) by (simp add: line_def M_def)
    from run_unique[OF q(4) _ _ _ this, of ] decimal_digits[of k] space_facts(6)
    show ?thesis by blast
  qed
  obtain y w1' where w1: "w1 = y # w1'" using q(5) by (cases w1) auto
  have "w1' = []"
  proof (cases w1')
    case Nil
    then show ?thesis .
  next
    case (Cons z zs)
    with s1 w1 nn have "z = hd n" by (cases n) auto
    moreover have "is_space z" using q(6) w1 Cons by simp
    moreover have "\<not> is_space (hd n)" using p(5) nn by (cases n) auto
    ultimately show ?thesis by simp
  qed
  with s1 w1 have s2: "M @ w2 @ 0x2014 # w3 @ rest = n @ 0x20 # 0x2014 # 0x20 # d" by simp
  have "M = n"
    using capture_unique[OF nn p(5) d s2 q(8) q(9) q(10) q(11)] .
  then have "ms = [n @ w2 @ 0x2014 # w3 @ rest, w2 @ 0x2014 # w3 @ rest]"
    using q(2) by (simp add: M_def)
  then have "line_match line = Some n"
    using ms by (simp add: line_match_def)
  then show ?thesis by (simp only: line)
qed

section \<open>Lines and decoding\<close>

lemma split_on_nonempty: "split_on sep s \<noteq> []"
  by (induction s) (auto split: list.splits)

lemma split_on_append:
  "split_on sep (a @ sep # b) = split_on sep a @ split_on sep b"
proof (induction a)
  case Nil
  then show ?case by simp
next
  case (Cons x a)
  then show ?case
    using split_on_nonempty[of sep a] by (cases "split_on sep a") auto
qed

lemma split_on_no_sep: "sep \<notin> set s \<Longrightarrow> split_on sep s = [s]"
  by (induction s) auto

lemma parse_lines_concat:
  "parse_lines L ls acc =
     acc @ concat (map (\<lambda>l. case line_match l of None \<Rightarrow> [] | Some m \<Rightarrow> [L (trim m)]) ls)"
  by (induction ls arbitrary: acc) (auto split: option.splits)

lemma parseEmails_concat:
  "parseEmails L md =
     concat (map (\<lambda>l. case line_match l of None \<Rightarrow> [] | Some m \<Rightarrow> [L (trim m)])
       (split_on 0xA md))"
  by (simp add: parseEmails_def parse_lines_concat)

lemma parseEmails_append:
  "parseEmails L (a @ 0xA # b) = parseEmails L a @ parseEmails L b"
  by (simp add: parseEmails_concat split_on_append)

lemma line_match_Nil: "line_match [] = None"
  by (simp add: line_match_def entry_re_def)

lemma parseEmails_Nil: "parseEmails L [] = []"
  by (simp add: parseEmails_concat line_match_Nil)

lemma trim_id:
  assumes "list_all (\<lambda>x. \<not> is_space x) n"
  shows "trim n = n"
proof -
  have 1: "dropWhile is_space n = n" using assms by (cases n) auto
  have "list_all (\<lambda>x. \<not> is_space x) (rev n)" using assms by (simp add: list_all_iff)
  then have 2: "dropWhile is_space (rev n) = rev n" by (cases "rev n") auto
  show ?thesis by (simp add: trim_def trimStart_def trimEnd_def 1 2)
qed

lemma parseEmails_line:
  assumes "0xA \<notin> set l"
  shows "parseEmails L l = (case line_match l of None \<Rightarrow> [] | Some m \<Rightarrow> [L (trim m)])"
  using assms by (simp add: parseEmails_concat split_on_no_sep)

lemma decode_updatedContent:
  assumes v: "email_test n" and d: "list_all (\<lambda>x. \<not> is_space x) d"
  shows "parseEmails L (updatedContent c k n d) = parseEmails L (trimEnd c) @ [L n]"
proof -
  define body where "body = decimal k @ asc ''. '' @ n @ [0x20, 0x2014, 0x20] @ d"
  have m: "line_match body = Some n"
    unfolding body_def using v d by (rule rendered_line_match)
  from email_parts[OF v] have ns: "list_all (\<lambda>x. \<not> is_space x) n" by blast
  have nl: "0xA \<notin> set body"
  proof
    assume "0xA \<in> set body"
    then have "0xA \<in> set (decimal k) \<or> 0xA \<in> set n \<or> 0xA \<in> set d"
      by (auto simp: body_def asc_def)
    moreover have "\<not> is_digit 0xA" by (simp add: is_digit_def)
    ultimately show False
      using decimal_digits[of k] ns d space_facts(2) by (auto simp: list_all_iff)
  qed
  have "updatedContent c k n d = trimEnd c @ 0xA # (body @ 0xA # [])"
    by (simp add: updatedContent_def newLine_def body_def)
  then have "parseEmails L (updatedContent c k n d) =
      parseEmails L (trimEnd c) @ parseEmails L body @ parseEmails L []"
    by (simp only: parseEmails_append)
  also have "parseEmails L body = [L (trim n)]"
    using parseEmails_line[OF nl, of L] m by simp
  finally show ?thesis
    by (simp add: parseEmails_Nil trim_id[OF ns])
qed
text \<open>
  A document that the handler has written (with a timestamp that is not empty) decodes
  to the same entries after \<open>trimEnd\<close>: its last line ends with the timestamp.
\<close>

lemma trimEnd_snoc:
  assumes "xs \<noteq> []" and "\<not> is_space (last xs)" and "is_space y"
  shows "trimEnd (xs @ [y]) = xs"
proof -
  define r where "r = rev xs"
  have h: "hd r = last xs" "r \<noteq> []" using assms(1) by (simp_all add: r_def hd_rev)
  then obtain z zs where zs: "r = z # zs" by (cases r) auto
  with h(1) assms(2) have "\<not> is_space z" by simp
  then have "dropWhile is_space r = r" by (simp add: zs)
  then have "rev (dropWhile is_space r) = xs" by (simp add: r_def)
  then show ?thesis using assms(3) by (simp add: trimEnd_def r_def)
qed

lemma written_document_stable:
  assumes v: "email_test n" and d: "list_all (\<lambda>x. \<not> is_space x) d" and ne: "d \<noteq> []"
  shows "parseEmails L (trimEnd (updatedContent c k n d)) = parseEmails L (updatedContent c k n d)"
proof -
  define body where "body = decimal k @ asc ''. '' @ n @ [0x20, 0x2014, 0x20] @ d"
  define X where "X = trimEnd c @ 0xA # body"
  have u: "updatedContent c k n d = X @ [0xA]"
    by (simp add: updatedContent_def newLine_def body_def X_def)
  have "last X = last d" using ne by (simp add: X_def body_def)
  moreover have "\<not> is_space (last d)" using d ne by (simp add: list_all_iff)
  ultimately have t: "trimEnd (X @ [0xA]) = X"
    using trimEnd_snoc[of X "0xA"] space_facts(2) by (simp add: X_def)
  have m: "line_match body = Some n"
    unfolding body_def using v d by (rule rendered_line_match)
  from email_parts[OF v] have ns: "list_all (\<lambda>x. \<not> is_space x) n" by blast
  have nl: "0xA \<notin> set body"
  proof
    assume "0xA \<in> set body"
    then have "0xA \<in> set (decimal k) \<or> 0xA \<in> set n \<or> 0xA \<in> set d"
      by (auto simp: body_def asc_def)
    moreover have "\<not> is_digit 0xA" by (simp add: is_digit_def)
    ultimately show False
      using decimal_digits[of k] ns d space_facts(2) by (auto simp: list_all_iff)
  qed
  have "parseEmails L X = parseEmails L (trimEnd c) @ parseEmails L body"
    unfolding X_def by (rule parseEmails_append)
  also have "parseEmails L body = [L (trim n)]"
    using parseEmails_line[OF nl, of L] m by simp
  finally have "parseEmails L X = parseEmails L (trimEnd c) @ [L n]"
    by (simp add: trim_id[OF ns])
  then show ?thesis
    using decode_updatedContent[OF v d, of L c k] by (simp add: u t)
qed

lemma line_match_Some:
  assumes "line_match line = Some m"
  shows "\<exists>rest. entry_prefix line m rest"
proof -
  from assms obtain ms where ms: "rmatch entry_re line = Some ms"
    by (auto simp: line_match_def split: option.splits)
  then have "ms \<in> sem entry_re line" by (rule rmatch_sound)
  then obtain ds w1 a b c w2 w3 rest where q:
      "line = ds @ 0x2E # w1 @ a @ 0x40 # b @ 0x2E # c @ w2 @ 0x2014 # w3 @ rest"
      "ms = [a @ 0x40 # b @ 0x2E # c @ w2 @ 0x2014 # w3 @ rest, w2 @ 0x2014 # w3 @ rest]"
      "ds \<noteq> []" "list_all is_digit ds" "w1 \<noteq> []" "list_all is_space w1"
      "a \<noteq> []" "list_all (\<lambda>x. \<not> is_line_terminator x) a"
      "b \<noteq> []" "list_all (\<lambda>x. \<not> is_line_terminator x) b"
      "c \<noteq> []" "list_all (\<lambda>x. \<not> is_line_terminator x) c"
      "w2 \<noteq> []" "list_all is_space w2" "w3 \<noteq> []" "list_all is_space w3"
    unfolding sem_entry_re by blast
  have m: "m = a @ 0x40 # b @ 0x2E # c"
    using assms ms q(2) by (simp add: line_match_def)
  have lt: "\<not> is_line_terminator 0x40" "\<not> is_line_terminator 0x2E"
    by (simp_all add: is_line_terminator_def)
  have "entry_prefix line m rest"
    unfolding entry_prefix_def
    apply (rule exI[of _ ds], rule exI[of _ w1], rule exI[of _ a], rule exI[of _ b],
        rule exI[of _ c], rule exI[of _ w2], rule exI[of _ w3])
    using q m lt by simp
  then show ?thesis ..
qed

lemma entry_prefix_match:
  assumes "entry_prefix line m rest"
  shows "line_match line \<noteq> None"
proof -
  from assms obtain ds w1 a b c w2 w3 where q:
      "line = ds @ 0x2E # w1 @ m @ w2 @ 0x2014 # w3 @ rest"
      "m = a @ 0x40 # b @ 0x2E # c"
      "ds \<noteq> []" "list_all is_digit ds" "w1 \<noteq> []" "list_all is_space w1"
      "a \<noteq> []" "b \<noteq> []" "c \<noteq> []" "list_all (\<lambda>x. \<not> is_line_terminator x) m"
      "w2 \<noteq> []" "list_all is_space w2" "w3 \<noteq> []" "list_all is_space w3"
    unfolding entry_prefix_def by blast
  have "[m @ w2 @ 0x2014 # w3 @ rest, w2 @ 0x2014 # w3 @ rest] \<in> sem entry_re line"
    unfolding sem_entry_re
    apply (rule exI[of _ ds], rule exI[of _ w1], rule exI[of _ a], rule exI[of _ b],
        rule exI[of _ c], rule exI[of _ w2], rule exI[of _ w3], rule exI[of _ rest])
    using q by simp
  then have "rmatch entry_re line \<noteq> None" by (rule rmatch_complete)
  then obtain ms where ms: "rmatch entry_re line = Some ms" by blast
  then have "ms \<in> sem entry_re line" by (rule rmatch_sound)
  then obtain x y where "ms = [x, y]" unfolding sem_entry_re by blast
  with ms show ?thesis by (simp add: line_match_def)
qed

lemma no_date_line:
  "\<not> spec_entry_shape (asc ''1. a@b.c '' @ [0x2014, 0x20])"
proof
  define l0 :: jsstring where "l0 = asc ''1. a@b.c '' @ [0x2014, 0x20]"
  assume "spec_entry_shape (asc ''1. a@b.c '' @ [0x2014, 0x20])"
  then obtain m date ds w1 w2 w3 where
      eq: "l0 = ds @ 0x2E # w1 @ m @ w2 @ 0x2014 # w3 @ date"
      and ne: "w3 \<noteq> []" "date \<noteq> []"
    unfolding spec_entry_shape_def entry_prefix_def l0_def by blast
  define P where "P = ds @ 0x2E # w1 @ m @ w2"
  define Q where "Q = w3 @ date"
  have l0: "l0 = P @ 0x2014 # Q" by (simp add: eq P_def Q_def)
  have "2 \<le> length Q" using ne by (cases w3; cases date) (auto simp: Q_def)
  moreover have len: "length l0 = 11" by (simp add: l0_def asc_def)
  ultimately have p: "length P < 9" using l0 by simp
  have "l0 ! length P = 0x2014" by (simp add: l0)
  moreover have "l0 ! length P = take 9 l0 ! length P" using p by simp
  moreover have "take 9 l0 ! length P \<in> set (take 9 l0)"
    using p len by (intro nth_mem) simp
  moreover have "0x2014 \<notin> set (take 9 l0)" by (simp add: l0_def asc_def)
  ultimately show False by simp
qed

section \<open>Decoding line by line\<close>

lemma split_on_pieces: "l \<in> set (split_on sep s) \<Longrightarrow> sep \<notin> set l"
proof (induction s arbitrary: l)
  case Nil
  then show ?case by simp
next
  case (Cons c s)
  show ?case
  proof (cases "c = sep")
    case True
    with Cons show ?thesis by auto
  next
    case False
    obtain p ps where ps: "split_on sep s = p # ps"
      using split_on_nonempty[of sep s] by (cases "split_on sep s") auto
    with Cons.prems False have "l = c # p \<or> l \<in> set ps" by simp
    then show ?thesis
    proof
      assume "l = c # p"
      moreover have "sep \<notin> set p" using Cons.IH[of p] ps by simp
      ultimately show ?thesis using False by auto
    next
      assume "l \<in> set ps"
      then show ?thesis using Cons.IH[of l] ps by simp
    qed
  qed
qed

lemma parseEmails_by_line:
  "parseEmails L md = concat (map (parseEmails L) (split_on 0xA md))"
proof -
  have "map (parseEmails L) (split_on 0xA md) =
        map (\<lambda>l. case line_match l of None \<Rightarrow> [] | Some m \<Rightarrow> [L (trim m)]) (split_on 0xA md)"
    by (rule map_cong) (simp_all add: parseEmails_line split_on_pieces)
  then have "concat (map (parseEmails L) (split_on 0xA md)) = parseEmails L md"
    by (simp only: parseEmails_concat[of L md])
  then show ?thesis by (rule sym)
qed

lemma has_entry_prefix_iff: "has_entry_prefix l \<longleftrightarrow> line_match l \<noteq> None"
  unfolding has_entry_prefix_def using line_match_Some entry_prefix_match by blast

lemma no_entry_prefix:
  assumes "l = [] \<or> \<not> is_digit (hd l) \<or> 0x2014 \<notin> set l"
  shows "\<not> has_entry_prefix l"
proof
  assume "has_entry_prefix l"
  then obtain m rest ds w1 w2 w3 where
      l: "l = ds @ 0x2E # w1 @ m @ w2 @ 0x2014 # w3 @ rest" and ds: "ds \<noteq> []" "list_all is_digit ds"
    unfolding has_entry_prefix_def entry_prefix_def by blast
  from ds obtain x xs where x: "ds = x # xs" "is_digit x" by (cases ds) auto
  have "l \<noteq> []" "is_digit (hd l)" "0x2014 \<in> set l" using l x by simp_all
  with assms show False by blast
qed

lemma group_defined:
  assumes "rmatch entry_re l = Some ms"
  shows "\<exists>b e. ms = [b, e]"
proof -
  from assms have "ms \<in> sem entry_re l" by (rule rmatch_sound)
  then show ?thesis unfolding sem_entry_re by blast
qed

section \<open>The text that is written\<close>

lemma length_toWellFormed: "length (toWellFormed xs) = length xs"
  by (induction xs rule: toWellFormed.induct) auto

lemma toWellFormed_Cons:
  "\<not> is_high x \<Longrightarrow> \<not> is_low x \<Longrightarrow> toWellFormed (x # b) = x # toWellFormed b"
  by (cases b) auto

lemma toWellFormed_append:
  "\<not> is_high x \<Longrightarrow> \<not> is_low x \<Longrightarrow>
   toWellFormed (a @ x # b) = toWellFormed a @ x # toWellFormed b"
proof (induction a rule: toWellFormed.induct)
  case 1
  then show ?case by (simp add: toWellFormed_Cons)
next
  case (2 c)
  then show ?case by (simp add: toWellFormed_Cons)
next
  case (3 c d cs)
  then show ?case by simp
qed

lemma toWellFormed_id:
  "list_all (\<lambda>c. \<not> is_high c \<and> \<not> is_low c) xs \<Longrightarrow> toWellFormed xs = xs"
  by (induction xs) (auto simp: toWellFormed_Cons)

lemma not_surrogate:
  "\<not> is_high 0xA" "\<not> is_low 0xA" "\<not> is_high 0x20" "\<not> is_low 0x20"
  "\<not> is_high 0x2E" "\<not> is_low 0x2E" "\<not> is_high 0x2014" "\<not> is_low 0x2014"
  by (simp_all add: is_high_def is_low_def)

lemma digit_not_surrogate: "is_digit c \<Longrightarrow> \<not> is_high c \<and> \<not> is_low c"
proof -
  assume "is_digit c"
  then have b: "c \<le> 0x39" by (simp add: is_digit_def)
  have "\<not> 0xD800 \<le> c"
  proof
    assume "0xD800 \<le> c"
    then have "(0xD800 :: 16 word) \<le> 0x39" using b by (rule order_trans)
    then show False by simp
  qed
  moreover have "\<not> 0xDC00 \<le> c"
  proof
    assume "0xDC00 \<le> c"
    then have "(0xDC00 :: 16 word) \<le> 0x39" using b by (rule order_trans)
    then show False by simp
  qed
  ultimately show ?thesis by (simp add: is_high_def is_low_def)
qed

lemma header_written:
  "toWellFormed (asc ''# Waitlist Signups'' @ x) = asc ''# Waitlist Signups'' @ toWellFormed x"
  by (simp add: asc_def toWellFormed_Cons is_high_def is_low_def)

text \<open>
  Appending a rendered entry line to any text: the new line is decoded to its email,
  also after the text has gone through the UTF-8 encoding, provided the email and the
  timestamp have no unpaired surrogate.
\<close>

lemma decode_append_line:
  assumes v: "email_test n" and d: "list_all (\<lambda>x. \<not> is_space x) d"
  shows "parseEmails L (X @ 0xA # (decimal k @ asc ''. '' @ n @ [0x20, 0x2014, 0x20] @ d) @ [0xA]) =
           parseEmails L X @ [L n]"
proof -
  define body where "body = decimal k @ asc ''. '' @ n @ [0x20, 0x2014, 0x20] @ d"
  have m: "line_match body = Some n"
    unfolding body_def using v d by (rule rendered_line_match)
  from email_parts[OF v] have ns: "list_all (\<lambda>x. \<not> is_space x) n" by blast
  have nl: "0xA \<notin> set body"
  proof
    assume "0xA \<in> set body"
    then have "0xA \<in> set (decimal k) \<or> 0xA \<in> set n \<or> 0xA \<in> set d"
      by (auto simp: body_def asc_def)
    moreover have "\<not> is_digit 0xA" by (simp add: is_digit_def)
    ultimately show False
      using decimal_digits[of k] ns d space_facts(2) by (auto simp: list_all_iff)
  qed
  have "parseEmails L (X @ 0xA # (body @ 0xA # [])) =
      parseEmails L X @ parseEmails L body @ parseEmails L []"
    by (simp only: parseEmails_append)
  also have "parseEmails L body = [L (trim n)]"
    using parseEmails_line[OF nl, of L] m by simp
  finally show ?thesis
    by (simp add: parseEmails_Nil trim_id[OF ns] body_def)
qed

lemma written_content:
  assumes n: "toWellFormed n = n" and d: "toWellFormed d = d"
  shows "toWellFormed (updatedContent c k n d) =
           toWellFormed (trimEnd c) @ 0xA # (decimal k @ asc ''. '' @ n @ [0x20, 0x2014, 0x20] @ d) @ [0xA]"
proof -
  have dk: "toWellFormed (decimal k) = decimal k"
    using decimal_digits[of k] digit_not_surrogate
    by (intro toWellFormed_id) (auto simp: list_all_iff)
  have 1: "toWellFormed (d @ 0xA # []) = d @ [0xA]"
    by (simp only: toWellFormed_append[OF not_surrogate(1,2)] d) simp
  have 2: "toWellFormed (n @ 0x20 # (0x2014 # 0x20 # d @ [0xA])) = n @ 0x20 # 0x2014 # 0x20 # d @ [0xA]"
    using 1 by (simp add: toWellFormed_append[OF not_surrogate(3,4)] n toWellFormed_Cons not_surrogate)
  have 3: "toWellFormed (decimal k @ 0x2E # (0x20 # n @ 0x20 # 0x2014 # 0x20 # d @ [0xA])) =
      decimal k @ 0x2E # 0x20 # n @ 0x20 # 0x2014 # 0x20 # d @ [0xA]"
    using 2 by (simp add: toWellFormed_append[OF not_surrogate(5,6)] dk toWellFormed_Cons not_surrogate)
  have "updatedContent c k n d =
      trimEnd c @ 0xA # (decimal k @ 0x2E # (0x20 # n @ 0x20 # 0x2014 # 0x20 # d @ [0xA]))"
    by (simp add: updatedContent_def newLine_def asc_def)
  then have "toWellFormed (updatedContent c k n d) =
      toWellFormed (trimEnd c) @ 0xA # decimal k @ 0x2E # 0x20 # n @ 0x20 # 0x2014 # 0x20 # d @ [0xA]"
    using 3 by (simp add: toWellFormed_append[OF not_surrogate(1,2)])
  then show ?thesis by (simp add: asc_def)
qed

lemma decode_written:
  assumes v: "email_test n" and d: "list_all (\<lambda>x. \<not> is_space x) d"
    and n: "toWellFormed n = n" and wd: "toWellFormed d = d"
  shows "parseEmails L (toWellFormed (updatedContent c k n d)) =
           parseEmails L (toWellFormed (trimEnd c)) @ [L n]"
  by (simp only: written_content[OF n wd] decode_append_line[OF v d])

section \<open>The retry loop and the reference store\<close>





lemma retry_ok:
  "i < 3 \<Longrightarrow> attempt P n w = (Inr r, ev, w1) \<Longrightarrow> retry P n i w = (Responded r, ev, w1)"
  by (simp add: retry.simps[of P n i w])

lemma valid_string: "isValidEmail (JStr e) = Inr True \<Longrightarrow> email_test e"
  by (simp add: isValidEmail_def split: if_splits)

lemma valid_no_space: "email_test e \<Longrightarrow> e \<noteq> [] \<and> trim e = e"
  using email_parts[of e] trim_id[of e] by auto

lemma handler_post:
  assumes "isValidEmail (JStr e) = Inr True"
  shows "handler P \<lparr>http_method = ''POST'', body = JObj [(asc ''email'', JStr e)]\<rparr> w =
           retry P (toLowerCase P e) 0 w"
proof -
  have "email_test e" using assms by (rule valid_string)
  then have "e \<noteq> []" "trim e = e" using valid_no_space by auto
  then show ?thesis
    using assms by (simp add: handler_def body_email_def normalizedEmail_def)
qed

lemma mem_getFile:
  "getFile (mem_store L) w =
     (case document w of None \<Rightarrow> Inr JsonFalsy | Some (c, s) \<Rightarrow> Inr (JsonFile c (Some s)), w)"
  by (simp add: getFile_def mem_store_def mem_get_def ok_def split: option.splits)

lemma mem_updateFile_create:
  "document w = None \<Longrightarrow>
   updateFile (mem_store L) new None w =
     (Inr JsonOther, w\<lparr>document := Some (toWellFormed new, 0x76 # decimal (version w)),
             version := version w + 1\<rparr>)"
  by (simp add: updateFile_def mem_store_def mem_put_def put_request_def ok_def)

lemma mem_updateFile_update:
  "document w = Some (c, s) \<Longrightarrow> s \<noteq> [] \<Longrightarrow>
   updateFile (mem_store L) new (Some s) w =
     (Inr JsonOther, w\<lparr>document := Some (toWellFormed new, 0x76 # decimal (version w)),
             version := version w + 1\<rparr>)"
  by (simp add: updateFile_def mem_store_def mem_put_def put_request_def ok_def)

lemma mem_store_fields:
  "toLowerCase (mem_store L) = L" "toISOString (mem_store L) = clock"
  "setTimeout (mem_store L) ms w = w"
  by (simp_all add: mem_store_def)

lemma mem_attempt_duplicate:
  assumes "document w = Some (c, s)" and "n \<in> set (parseEmails L c)"
  shows "attempt (mem_store L) n w =
     (Inr (respond 409 (ErrorCount ''You're already on the waitlist!'' (length (parseEmails L c)))),
      [Fetch], w)"
  using assms by (simp add: attempt_def mem_getFile mem_store_fields)

lemma mem_attempt_create:
  assumes "document w = None"
  shows "attempt (mem_store L) n w =
     (Inr (respond 200 (MessageCount ''You're on the list! We'll be in touch soon.'' 1)),
      [Fetch, Write (put_request
         (updatedContent (asc ''# Waitlist Signups'' @ [0xA, 0xA]) 1 n (timestamp (clock w))) None)],
      w\<lparr>document :=
          Some (toWellFormed
                  (updatedContent (asc ''# Waitlist Signups'' @ [0xA, 0xA]) 1 n (timestamp (clock w))),
                0x76 # decimal (version w)), version := version w + 1\<rparr>)"
  using assms mem_updateFile_create[OF assms, of L]
  by (simp add: attempt_def mem_getFile mem_store_fields Let_def)

lemma mem_attempt_append:
  assumes "document w = Some (c, s)" and "s \<noteq> []" and "n \<notin> set (parseEmails L c)"
  shows "attempt (mem_store L) n w =
     (Inr (respond 200 (MessageCount ''You're on the list! We'll be in touch soon.''
        (length (parseEmails L c) + 1))),
      [Fetch, Write (put_request
         (updatedContent c (length (parseEmails L c) + 1) n (timestamp (clock w))) (Some s))],
      w\<lparr>document :=
          Some (toWellFormed
                  (updatedContent c (length (parseEmails L c) + 1) n (timestamp (clock w))),
                0x76 # decimal (version w)), version := version w + 1\<rparr>)"
  using assms mem_updateFile_update[OF assms(1,2), of L]
  by (simp add: attempt_def mem_getFile mem_store_fields Let_def)

lemma header_trimEnd:
  "trimEnd (asc ''# Waitlist Signups'' @ [0xA, 0xA]) = asc ''# Waitlist Signups''"
  by (simp add: trimEnd_def asc_def is_space_def)


section \<open>Validation of values that are not strings\<close>

text \<open>
  The values on which the pattern never succeeds whatever they hold, and what the
  handler does with an \<open>email\<close> that is not a string: it answers 400 when the value is
  falsy or fails \<open>isValidEmail\<close>, and throws a TypeError otherwise, either in
  \<open>isValidEmail\<close> (the conversion to a string) or at the call of \<open>trim\<close>.
\<close>

lemma test_fails:
  "isValidEmail JUndefined = Inr False" "isValidEmail JNull = Inr False"
  "isValidEmail (JBool b) = Inr False" "isValidEmail (JNum s) = Inr False"
  "isValidEmail (JObj kvs) = (case map_of kvs (asc ''toString'') of
                                Some v \<Rightarrow> Inl TypeError | None \<Rightarrow> Inr False)"
  by (simp_all add: isValidEmail_def split: option.splits)

lemma collect_error: "collect xs = Inl e \<Longrightarrow> Inl e \<in> set xs"
  by (induction xs) (auto split: sum.splits)

lemma to_string_error: "to_string v = Inl e \<Longrightarrow> e = TypeError"
proof (induction v arbitrary: e rule: to_string.induct)
  case (6 vs)
  from "6.prems" have "collect (map (\<lambda>v. if v = JUndefined \<or> v = JNull then Inr []
      else to_string v) vs) = Inl e"
    by (simp split: sum.splits)
  then have "Inl e \<in> set (map (\<lambda>v. if v = JUndefined \<or> v = JNull then Inr []
      else to_string v) vs)"
    by (rule collect_error)
  then obtain v where v: "v \<in> set vs" "(if v = JUndefined \<or> v = JNull then Inr []
      else to_string v) = Inl e"
    by auto
  then have "\<not> (v = JUndefined \<or> v = JNull)" "to_string v = Inl e"
    by (simp_all split: if_splits)
  with v(1) show ?case using "6.IH" by blast
next
  case (7 kvs)
  then show ?case by (simp split: option.splits)
qed simp_all

lemma non_string_email:
  assumes "http_method req = ''POST''" and "\<And>s. body_email (body req) \<noteq> JStr s"
  shows "handler P req w =
     (if \<not> truthy (body_email (body req)) \<or> isValidEmail (body_email (body req)) = Inr False
      then (Responded (respond 400 (Error ''Please enter a valid email address.'')), [], w)
      else (Threw TypeError, [], w))"
proof (cases "body_email (body req)")
  case (JArr vs)
  show ?thesis
  proof (cases "isValidEmail (JArr vs)")
    case (Inl e)
    then have "to_string (JArr vs) = Inl e"
      by (simp add: isValidEmail_def split: sum.splits)
    then have "e = TypeError" by (rule to_string_error)
    with Inl JArr assms(1) show ?thesis by (simp add: handler_def Let_def)
  next
    case (Inr valid)
    with JArr assms(1) show ?thesis by (simp add: handler_def normalizedEmail_def Let_def)
  qed
next
  case (JObj kvs)
  with assms(1) show ?thesis
    by (simp add: handler_def normalizedEmail_def test_fails Let_def split: option.splits)
next
  case (JStr s)
  with assms(2)[of s] show ?thesis by blast
qed (use assms(1) in \<open>simp_all add: handler_def normalizedEmail_def test_fails Let_def\<close>)

lemma object_with_toString_throws:
  assumes "map_of kvs (asc ''toString'') = Some v"
  shows "handler P \<lparr>http_method = ''POST'', body = JObj [(asc ''email'', JObj kvs)]\<rparr> w =
           (Threw TypeError, [], w)"
  using assms by (simp add: handler_def body_email_def test_fails)

section \<open>Surrounding whitespace, letter case and unpaired surrogates\<close>

lemma trim_padded:
  assumes v: "email_test e0" and p: "list_all is_space p" and q: "list_all is_space q"
  shows "trim (p @ e0 @ q) = e0"
proof -
  from email_parts[OF v] have ns: "list_all (\<lambda>x. \<not> is_space x) e0" and ne: "e0 \<noteq> []"
    by auto
  have "dropWhile is_space (p @ e0 @ q) = dropWhile is_space (e0 @ q)"
    using p by (simp add: dropWhile_append list_all_iff)
  also have "\<dots> = e0 @ q" using ns ne by (cases e0) auto
  finally have 1: "trimStart (p @ e0 @ q) = e0 @ q" by (simp add: trimStart_def)
  have "dropWhile is_space (rev q @ rev e0) = dropWhile is_space (rev e0)"
    using q by (simp add: dropWhile_append list_all_iff)
  also have "\<dots> = rev e0"
  proof -
    have "list_all (\<lambda>x. \<not> is_space x) (rev e0)" using ns by (simp add: list_all_iff)
    moreover have "rev e0 \<noteq> []" using ne by simp
    ultimately show ?thesis by (cases "rev e0") auto
  qed
  finally have 2: "trimEnd (e0 @ q) = e0" by (simp add: trimEnd_def)
  show ?thesis by (simp add: trim_def 1 2)
qed

text \<open>
  What does hold of emails that differ in letter case, on the reference store: after
  the submit of a valid email whose lowercased form has no unpaired surrogate, every
  submit of a valid email with the same lowercased form is answered 409.
\<close>

lemma case_variants_collide:
  assumes v1: "isValidEmail (JStr e1) = Inr True"
    and key: "email_test (L e1)" "L (L e1) = L e1" "toWellFormed (L e1) = L e1"
    and doc: "case document w of None \<Rightarrow> True
              | Some (c, s) \<Rightarrow> s \<noteq> [] \<and> L e1 \<notin> set (parseEmails L c)"
    and date: "list_all (\<lambda>x. \<not> is_space x) (timestamp (clock w))"
      "toWellFormed (timestamp (clock w)) = timestamp (clock w)"
  shows "\<exists>k ev w1 k'.
     handler (mem_store L) \<lparr>http_method = ''POST'', body = JObj [(asc ''email'', JStr e1)]\<rparr> w =
       (Responded (respond 200 (MessageCount ''You're on the list! We'll be in touch soon.'' k)),
        ev, w1) \<and>
     (\<forall>e2. isValidEmail (JStr e2) = Inr True \<and> L e2 = L e1 \<longrightarrow>
        handler (mem_store L) \<lparr>http_method = ''POST'', body = JObj [(asc ''email'', JStr e2)]\<rparr> w1 =
          (Responded (respond 409 (ErrorCount ''You're already on the waitlist!'' k')),
           [Fetch], w1))"
proof -
  define n where "n = L e1"
  define c0 where "c0 = (case document w of None \<Rightarrow> asc ''# Waitlist Signups'' @ [0xA, 0xA]
                          | Some (c, s) \<Rightarrow> c)"
  define k where "k = (case document w of None \<Rightarrow> 1 | Some (c, s) \<Rightarrow> length (parseEmails L c) + 1)"
  define new where "new = toWellFormed (updatedContent c0 k n (timestamp (clock w)))"
  define w1 where "w1 = w\<lparr>document := Some (new, 0x76 # decimal (version w)), version := version w + 1\<rparr>"
  define ev where "ev = [Fetch, Write (put_request (updatedContent c0 k n (timestamp (clock w)))
      (map_option snd (document w)))]"
  have first: "attempt (mem_store L) n w =
      (Inr (respond 200 (MessageCount ''You're on the list! We'll be in touch soon.'' k)), ev, w1)"
  proof (cases "document w")
    case None
    then show ?thesis
      using mem_attempt_create[OF None, of L n]
      by (simp add: c0_def k_def new_def w1_def ev_def)
  next
    case (Some p)
    obtain c s where p: "p = (c, s)" by (cases p)
    with Some doc have d: "document w = Some (c, s)" "s \<noteq> []" "n \<notin> set (parseEmails L c)"
      by (simp_all add: n_def)
    show ?thesis
      using mem_attempt_append[OF d] d(1)
      by (simp add: c0_def k_def new_def w1_def ev_def)
  qed
  have dec: "parseEmails L new = parseEmails L (toWellFormed (trimEnd c0)) @ [n]"
    unfolding new_def using decode_written[OF _ date(1) _ date(2), of n L c0 k] key
    by (simp add: n_def)
  have w1doc: "document w1 = Some (new, 0x76 # decimal (version w))"
    by (simp add: w1_def)
  have second: "attempt (mem_store L) n w1 =
      (Inr (respond 409 (ErrorCount ''You're already on the waitlist!'' (length (parseEmails L new)))),
       [Fetch], w1)"
    by (rule mem_attempt_duplicate[OF w1doc]) (simp add: dec)
  have r1: "handler (mem_store L) \<lparr>http_method = ''POST'', body = JObj [(asc ''email'', JStr e1)]\<rparr> w =
      (Responded (respond 200 (MessageCount ''You're on the list! We'll be in touch soon.'' k)), ev, w1)"
    using retry_ok[OF _ first, of 0] by (simp add: handler_post[OF v1] mem_store_fields n_def)
  have r2: "handler (mem_store L) \<lparr>http_method = ''POST'', body = JObj [(asc ''email'', JStr e2)]\<rparr> w1 =
      (Responded (respond 409 (ErrorCount ''You're already on the waitlist!'' (length (parseEmails L new)))),
       [Fetch], w1)"
    if "isValidEmail (JStr e2) = Inr True" "L e2 = L e1" for e2
    using retry_ok[OF _ second, of 0] that
    by (simp add: handler_post[OF that(1)] mem_store_fields n_def)
  from r1 r2 show ?thesis by blast
qed

text \<open>
  With an unpaired surrogate in the email the stored text holds U+FFFD in its place,
  the next fetch does not find the email, and the same submit succeeds a second time.
\<close>

lemma lone_surrogate_submitted_twice:
  "fst (handler (mem_store ascii_lower)
     \<lparr>http_method = ''POST'', body = JObj [(asc ''email'', JStr (0xD800 # asc ''@b.co''))]\<rparr>
     \<lparr>document = None, clock = asc ''2024-01-15T10:00:00.000Z'', version = 0\<rparr>) =
   Responded (respond 200 (MessageCount ''You're on the list! We'll be in touch soon.'' 1)) \<and>
   fst (handler (mem_store ascii_lower)
     \<lparr>http_method = ''POST'', body = JObj [(asc ''email'', JStr (0xD800 # asc ''@b.co''))]\<rparr>
     (snd (snd (handler (mem_store ascii_lower)
        \<lparr>http_method = ''POST'', body = JObj [(asc ''email'', JStr (0xD800 # asc ''@b.co''))]\<rparr>
        \<lparr>document = None, clock = asc ''2024-01-15T10:00:00.000Z'', version = 0\<rparr>)))) =
   Responded (respond 200 (MessageCount ''You're on the list! We'll be in touch soon.'' 2))"
  by code_simp

section \<open>The claims\<close>

subsection \<open>Retry exhaustion\<close>



subsection \<open>Encoding a new entry and decoding again\<close>

text \<open>
  Claim C2, amended. For every document text whose right-trimmed form decodes to the
  same entries as the text itself, every valid normalized email \<open>n\<close> (it passes the
  validation pattern and lowercasing leaves it unchanged) and every timestamp without
  whitespace: decoding the text written for the new entry, rendered with the number
  \<open>length + 1\<close>, gives the entries decoded before followed by exactly \<open>n\<close>.
\<close>

theorem decode_encode_roundtrip:
  assumes "email_test n" and "L n = n" and "list_all (\<lambda>x. \<not> is_space x) d"
    and "parseEmails L (trimEnd c) = parseEmails L c"
  shows "parseEmails L (updatedContent c (length (parseEmails L c) + 1) n d) =
           parseEmails L c @ [n]"
  using decode_updatedContent[OF assms(1,3), of L c] assms(2,4) by simp

text \<open>On a document with one entry.\<close>

theorem decode_encode_roundtrip_witness:
  "parseEmails ascii_lower
     (updatedContent (asc ''1. a@b.c '' @ [0x2014] @ asc '' 2024-01-14'' @ [0xA]) 2
        (asc ''x@y.z'') (asc ''2024-01-15'')) =
   [asc ''a@b.c'', asc ''x@y.z'']"
proof -
  define c where "c = asc ''1. a@b.c '' @ [0x2014] @ asc '' 2024-01-14'' @ [0xA]"
  define n where "n = asc ''x@y.z''"
  define d where "d = asc ''2024-01-15''"
  define a where "a = asc ''a@b.c''"
  have p: "parseEmails ascii_lower c = [a]" unfolding c_def a_def by code_simp
  have h1: "email_test n" unfolding n_def by code_simp
  have h2: "ascii_lower n = n" unfolding n_def by code_simp
  have h3: "list_all (\<lambda>x. \<not> is_space x) d" unfolding d_def by code_simp
  have h4: "parseEmails ascii_lower (trimEnd c) = parseEmails ascii_lower c"
    unfolding c_def by code_simp
  have "parseEmails ascii_lower (updatedContent c 2 n d) = [a, n]"
    using decode_encode_roundtrip[OF h1 h2 h3 h4] by (simp add: p numeral_2_eq_2)
  then show ?thesis unfolding c_def n_def d_def a_def .
qed

text \<open>
  Without the condition on the text the round trip fails: the line \<open>1. a@b.c \<emdash> \<close>
  (a separator, one space and no date) is decoded, but \<open>trimEnd\<close> removes the space that
  the pattern needs after the separator, so after the append only the new entry is
  decoded, under the number 2.
\<close>

theorem decode_encode_trailing_space_counterexample:
  "parseEmails ascii_lower (asc ''1. a@b.c '' @ [0x2014, 0x20]) = [asc ''a@b.c''] \<and>
   parseEmails ascii_lower
     (updatedContent (asc ''1. a@b.c '' @ [0x2014, 0x20])
        (length (parseEmails ascii_lower (asc ''1. a@b.c '' @ [0x2014, 0x20])) + 1)
        (asc ''x@y.z'') (asc ''2024-01-15'')) = [asc ''x@y.z'']"
  by code_simp

subsection \<open>Emails that differ in letter case or surrounding whitespace\<close>

text \<open>
  Claim C3. An email with surrounding whitespace is not treated as the email it trims
  to: for every \<open>e0\<close> that passes the validation pattern and every padding with
  whitespace before or after it, \<open>trim\<close> gives back \<open>e0\<close>, but the handler answers 400
  without any fetch, whatever the store holds. Validation runs on the raw string,
  whose pattern admits no whitespace, so the \<open>trim\<close> of line 87 never sees any.
\<close>

theorem padded_email_rejected:
  assumes v: "email_test e0" and p: "list_all is_space p" and q: "list_all is_space q"
    and pq: "p @ q \<noteq> []"
  shows "trim (p @ e0 @ q) = e0 \<and>
         handler P \<lparr>http_method = ''POST'', body = JObj [(asc ''email'', JStr (p @ e0 @ q))]\<rparr> w =
           (Responded (respond 400 (Error ''Please enter a valid email address.'')), [], w)"
proof
  show "trim (p @ e0 @ q) = e0" using v p q by (rule trim_padded)
  define e where "e = p @ e0 @ q"
  obtain x where x: "x \<in> set (p @ q)" using pq by (cases "p @ q") auto
  then have sx: "is_space x" using p q by (auto simp: list_all_iff)
  have xe: "x \<in> set e" using x by (auto simp: e_def)
  have "\<not> email_test e"
  proof
    assume "email_test e"
    then have "list_all (\<lambda>x. \<not> is_space x) e" using email_parts by blast
    with xe sx show False by (simp add: list_all_iff)
  qed
  then have i: "isValidEmail (JStr e) = Inr False" by (simp add: isValidEmail_def)
  have b: "body_email (JObj [(asc ''email'', JStr e)]) = JStr e" by (simp add: body_email_def)
  have "handler P \<lparr>http_method = ''POST'', body = JObj [(asc ''email'', JStr e)]\<rparr> w =
           (Responded (respond 400 (Error ''Please enter a valid email address.'')), [], w)"
    by (simp add: handler_def b i Let_def)
  then show "handler P \<lparr>http_method = ''POST'', body = JObj [(asc ''email'', JStr (p @ e0 @ q))]\<rparr> w =
           (Responded (respond 400 (Error ''Please enter a valid email address.'')), [], w)"
    by (simp only: e_def)
qed

text \<open>For \<open> a@b.com \<close> on an empty store, where a first submit of \<open>a@b.com\<close> succeeds.\<close>

theorem padded_email_rejected_witness:
  "handler (mem_store ascii_lower)
     \<lparr>http_method = ''POST'', body = JObj [(asc ''email'', JStr (asc '' a@b.com ''))]\<rparr>
     \<lparr>document = None, clock = asc ''2024-01-15T10:00:00.000Z'', version = 0\<rparr> =
   (Responded (respond 400 (Error ''Please enter a valid email address.'')), [],
    \<lparr>document = None, clock = asc ''2024-01-15T10:00:00.000Z'', version = 0\<rparr>) \<and>
   trim (asc '' a@b.com '') = asc ''a@b.com''"
proof -
  define e0 where "e0 = asc ''a@b.com''"
  have h1: "email_test e0" unfolding e0_def by code_simp
  have h2: "list_all is_space [0x20]" by (simp add: is_space_def)
  have h3: "[0x20] @ [0x20] \<noteq> ([] :: jsstring)" by simp
  have e: "asc '' a@b.com '' = [0x20] @ e0 @ [0x20]" by (simp add: asc_def e0_def)
  show ?thesis
    unfolding e e0_def[symmetric]
    using padded_email_rejected[OF h1 h2 h2 h3, where P = "mem_store ascii_lower"
        and w = "\<lparr>document = None, clock = asc ''2024-01-15T10:00:00.000Z'', version = 0\<rparr>"]
    by simp
qed

subsection \<open>Decoding never fails and skips what is not an entry\<close>

text \<open>
  Claim C4, amended. \<open>parseEmails\<close> gives a list for every text, and decodes it line by
  line: the result is the concatenation of what each line decodes to on its own. A line
  that does not start with the entry prefix (an integer, a dot, whitespace, a text with
  an \<open>@\<close> and a later dot, whitespace, the em dash, whitespace) decodes to nothing, and
  a line that does decodes to exactly one email, the text between the whitespace trimmed
  and lowercased. An empty line, a line that does not start with a digit (a header, a
  blank line) and a line without the em dash do not have the prefix. The one step that
  could throw is \<open>match[1].trim()\<close>, were group 1 undefined: whenever the pattern
  matches, both ends of group 1 are recorded.
\<close>

theorem decode_skips_lines_without_prefix:
  "parseEmails L md = concat (map (parseEmails L) (split_on 0xA md)) \<and>
   (\<forall>l. 0xA \<notin> set l \<and> \<not> has_entry_prefix l \<longrightarrow> parseEmails L l = []) \<and>
   (\<forall>l. 0xA \<notin> set l \<and> has_entry_prefix l \<longrightarrow>
        (\<exists>m rest. entry_prefix l m rest \<and> parseEmails L l = [L (trim m)])) \<and>
   (\<forall>l. l = [] \<or> \<not> is_digit (hd l) \<or> 0x2014 \<notin> set l \<longrightarrow> \<not> has_entry_prefix l) \<and>
   (\<forall>l ms. rmatch entry_re l = Some ms \<longrightarrow> (\<exists>b e. ms = [b, e]))"
proof (intro conjI allI impI)
  show "parseEmails L md = concat (map (parseEmails L) (split_on 0xA md))"
    by (rule parseEmails_by_line)
next
  fix l assume "0xA \<notin> set l \<and> \<not> has_entry_prefix l"
  then show "parseEmails L l = []"
    by (simp add: parseEmails_line has_entry_prefix_iff)
next
  fix l assume a: "0xA \<notin> set l \<and> has_entry_prefix l"
  then obtain m where m: "line_match l = Some m" by (auto simp: has_entry_prefix_iff)
  then obtain rest where "entry_prefix l m rest" using line_match_Some by blast
  moreover have "parseEmails L l = [L (trim m)]" using a m by (simp add: parseEmails_line)
  ultimately show "\<exists>m rest. entry_prefix l m rest \<and> parseEmails L l = [L (trim m)]" by blast
next
  fix l assume "l = [] \<or> \<not> is_digit (hd l) \<or> 0x2014 \<notin> set l"
  then show "\<not> has_entry_prefix l" by (rule no_entry_prefix)
next
  fix l ms assume "rmatch entry_re l = Some ms"
  then show "\<exists>b e. ms = [b, e]" by (rule group_defined)
qed


text \<open>A header, a blank line, a line without separator and one entry.\<close>

theorem decode_skips_lines_without_prefix_witness:
  "parseEmails ascii_lower
     (asc ''# Waitlist Signups'' @ [0xA, 0xA] @ asc ''2. no separator'' @ [0xA] @
      asc ''3. A@b.c '' @ [0x2014] @ asc '' 2024-01-15'') = [asc ''a@b.c'']"
proof -
  define h where "h = asc ''# Waitlist Signups''"
  define s where "s = asc ''2. no separator''"
  define e where "e = asc ''3. A@b.c '' @ [0x2014] @ asc '' 2024-01-15''"
  define a where "a = asc ''a@b.c''"
  define md where "md = h @ [0xA, 0xA] @ s @ [0xA] @ e"
  have lines: "split_on 0xA md = [h, [], s, e]"
    unfolding md_def h_def s_def e_def by code_simp
  have nl: "0xA \<notin> set h" "0xA \<notin> set s" unfolding h_def s_def by code_simp+
  have "\<not> is_digit (hd h)" unfolding h_def by code_simp
  then have ph: "\<not> has_entry_prefix h" using decode_skips_lines_without_prefix[of ascii_lower md] by blast
  have pe: "\<not> has_entry_prefix []" using decode_skips_lines_without_prefix[of ascii_lower md] by blast
  have "0x2014 \<notin> set s" unfolding s_def by code_simp
  then have ps: "\<not> has_entry_prefix s" using decode_skips_lines_without_prefix[of ascii_lower md] by blast
  have 1: "parseEmails ascii_lower h = []" using decode_skips_lines_without_prefix[of ascii_lower md] nl(1) ph by blast
  have 2: "parseEmails ascii_lower [] = []" using decode_skips_lines_without_prefix[of ascii_lower md] pe by simp
  have 3: "parseEmails ascii_lower s = []" using decode_skips_lines_without_prefix[of ascii_lower md] nl(2) ps by blast
  have 4: "parseEmails ascii_lower e = [a]" unfolding e_def a_def by code_simp
  have "parseEmails ascii_lower md = concat (map (parseEmails ascii_lower) (split_on 0xA md))"
    using decode_skips_lines_without_prefix[of ascii_lower md] by blast
  then have "parseEmails ascii_lower md = [a]" by (simp add: lines 1 2 3 4)
  then show ?thesis unfolding md_def h_def s_def e_def a_def by simp
qed


text \<open>
  With the shape of the specification, which ends in a date, the claim fails: the line
  \<open>1. a@b.c \<emdash> \<close> does not have that shape and contributes an email.
\<close>

theorem dateless_line_contributes_counterexample:
  "\<not> spec_entry_shape (asc ''1. a@b.c '' @ [0x2014, 0x20]) \<and>
   parseEmails ascii_lower (asc ''1. a@b.c '' @ [0x2014, 0x20]) = [asc ''a@b.c'']"
proof
  show "\<not> spec_entry_shape (asc ''1. a@b.c '' @ [0x2014, 0x20])" by (rule no_date_line)
  show "parseEmails ascii_lower (asc ''1. a@b.c '' @ [0x2014, 0x20]) = [asc ''a@b.c'']"
    by code_simp
qed


subsection \<open>Which lines are entries\<close>

text \<open>
  Claim C5, amended. A line is decoded as an entry if and only if it starts with an
  integer, a dot, whitespace, a text with an \<open>@\<close> and a later dot (each with text around
  it), whitespace, the em dash and whitespace; what follows, a date or anything else or
  nothing, is not looked at. The text between the whitespace is what is captured, and
  every decoded email is such a capture, trimmed and lowercased.
\<close>

theorem entry_line_shape:
  "((\<exists>m. line_match line = Some m) \<longleftrightarrow> (\<exists>m rest. entry_prefix line m rest)) \<and>
   (\<forall>m. line_match line = Some m \<longrightarrow> (\<exists>rest. entry_prefix line m rest)) \<and>
   set (parseEmails L md) =
     {L (trim m) | l m. l \<in> set (split_on 0xA md) \<and> line_match l = Some m}"
proof (intro conjI)
  show "(\<exists>m. line_match line = Some m) \<longleftrightarrow> (\<exists>m rest. entry_prefix line m rest)"
    using line_match_Some entry_prefix_match by blast
  show "\<forall>m. line_match line = Some m \<longrightarrow> (\<exists>rest. entry_prefix line m rest)"
    using line_match_Some by blast
  show "set (parseEmails L md) =
     {L (trim m) | l m. l \<in> set (split_on 0xA md) \<and> line_match l = Some m}"
    unfolding parseEmails_concat by (auto split: option.splits) metis
qed

text \<open>On the line \<open>1. a@b.c \<emdash> \<close>.\<close>

theorem entry_line_shape_witness:
  "(\<exists>m rest. entry_prefix (asc ''1. a@b.c '' @ [0x2014, 0x20]) m rest) \<and>
   (\<exists>rest. entry_prefix (asc ''1. a@b.c '' @ [0x2014, 0x20]) (asc ''a@b.c'') rest)"
proof -
  have m: "line_match (asc ''1. a@b.c '' @ [0x2014, 0x20]) = Some (asc ''a@b.c'')"
    by code_simp
  show ?thesis
    using entry_line_shape[of "asc ''1. a@b.c '' @ [0x2014, 0x20]" ascii_lower "[]"] m by blast
qed

text \<open>
  That line is decoded although it has no date, so it does not have the shape that the
  specification gives for an entry.
\<close>

theorem entry_without_date_counterexample:
  "line_match (asc ''1. a@b.c '' @ [0x2014, 0x20]) = Some (asc ''a@b.c'') \<and>
   \<not> spec_entry_shape (asc ''1. a@b.c '' @ [0x2014, 0x20])"
proof
  show "line_match (asc ''1. a@b.c '' @ [0x2014, 0x20]) = Some (asc ''a@b.c'')"
    by code_simp
  show "\<not> spec_entry_shape (asc ''1. a@b.c '' @ [0x2014, 0x20])"
    by (rule no_date_line)
qed

subsection \<open>Invalid input\<close>

text \<open>
  Claim C6. A POST whose email is a string that is empty, fails the validation pattern
  or is longer than 254 code units is answered 400, with no fetch and no write before
  it: the handler does nothing to the outside and the world is unchanged.
\<close>

theorem invalid_email_rejected:
  assumes "http_method req = ''POST''" and "body_email (body req) = JStr e"
    and "e = [] \<or> \<not> email_test e \<or> 254 < length e"
  shows "handler P req w =
     (Responded (respond 400 (Error ''Please enter a valid email address.'')), [], w)"
  using assms by (auto simp add: handler_def isValidEmail_def Let_def)

text \<open>For \<open>a@b\<close>, which has no dot after the \<open>@\<close>.\<close>

theorem invalid_email_rejected_witness:
  "handler (mem_store ascii_lower)
     \<lparr>http_method = ''POST'', body = JObj [(asc ''email'', JStr (asc ''a@b''))]\<rparr>
     \<lparr>document = None, clock = asc ''2024-01-15T10:00:00.000Z'', version = 0\<rparr> =
   (Responded (respond 400 (Error ''Please enter a valid email address.'')), [],
    \<lparr>document = None, clock = asc ''2024-01-15T10:00:00.000Z'', version = 0\<rparr>)"
proof (rule invalid_email_rejected)
  show "body_email (body \<lparr>http_method = ''POST'', body = JObj [(asc ''email'', JStr (asc ''a@b''))]\<rparr>) =
      JStr (asc ''a@b'')"
    by (simp add: body_email_def)
  have "\<not> email_test (asc ''a@b'')" by code_simp
  then show "asc ''a@b'' = [] \<or> \<not> email_test (asc ''a@b'') \<or> 254 < length (asc ''a@b'')"
    by simp
qed simp

subsection \<open>Creating the document\<close>

text \<open>
  Claim C7. When the document is absent and the write succeeds, the submit of a valid
  email is answered 200 with count 1, and the write carries no \<open>sha\<close>. But the text
  written is the title line, one newline and the entry line: \<open>trimEnd\<close> strips both
  newlines of the header \<^verbatim>\<open>'# Waitlist Signups\n\n'\<close>, so the blank line that the
  header and the claim have is not in the document: what is sent is not what the header
  with its blank line followed by the entry line would be sent as.
\<close>

theorem created_document_lacks_blank_line:
  assumes v: "isValidEmail (JStr e) = Inr True"
    and absent: "getFile P w = (Inr JsonFalsy, w1)"
    and put: "updateFile P
        (asc ''# Waitlist Signups'' @ 0xA # newLine 1 (toLowerCase P e) (timestamp (toISOString P w1)))
        None w1 = (Inr j, w2)"
  shows "handler P \<lparr>http_method = ''POST'', body = JObj [(asc ''email'', JStr e)]\<rparr> w =
     (Responded (respond 200 (MessageCount ''You're on the list! We'll be in touch soon.'' 1)),
      [Fetch,
       Write \<lparr>content = asc ''# Waitlist Signups'' @ 0xA #
                  toWellFormed (newLine 1 (toLowerCase P e) (timestamp (toISOString P w1))),
              sha = None\<rparr>],
      w2) \<and>
     asc ''# Waitlist Signups'' @ 0xA #
       toWellFormed (newLine 1 (toLowerCase P e) (timestamp (toISOString P w1))) \<noteq>
     toWellFormed (asc ''# Waitlist Signups'' @ [0xA, 0xA] @
       newLine 1 (toLowerCase P e) (timestamp (toISOString P w1)))"
proof -
  define n where "n = toLowerCase P e"
  define ts where "ts = timestamp (toISOString P w1)"
  have sent: "toWellFormed (asc ''# Waitlist Signups'' @ 0xA # newLine 1 n ts) =
      asc ''# Waitlist Signups'' @ 0xA # toWellFormed (newLine 1 n ts)"
    by (simp only: header_written toWellFormed_Cons[OF not_surrogate(1,2)])
  have a: "attempt P n w =
     (Inr (respond 200 (MessageCount ''You're on the list! We'll be in touch soon.'' 1)),
      [Fetch, Write \<lparr>content = asc ''# Waitlist Signups'' @ 0xA # toWellFormed (newLine 1 n ts),
                     sha = None\<rparr>], w2)"
    using absent put sent
    by (simp add: attempt_def updatedContent_def header_trimEnd put_request_def n_def ts_def)
  have h: "handler P \<lparr>http_method = ''POST'', body = JObj [(asc ''email'', JStr e)]\<rparr> w =
     (Responded (respond 200 (MessageCount ''You're on the list! We'll be in touch soon.'' 1)),
      [Fetch, Write \<lparr>content = asc ''# Waitlist Signups'' @ 0xA # toWellFormed (newLine 1 n ts),
                     sha = None\<rparr>], w2)"
    using retry_ok[OF _ a, of 0] by (simp add: handler_post[OF v] n_def)
  have "length (asc ''# Waitlist Signups'' @ 0xA # toWellFormed (newLine 1 n ts)) \<noteq>
        length (toWellFormed (asc ''# Waitlist Signups'' @ [0xA, 0xA] @ newLine 1 n ts))"
    by (simp add: length_toWellFormed)
  then have ne: "asc ''# Waitlist Signups'' @ 0xA # toWellFormed (newLine 1 n ts) \<noteq>
        toWellFormed (asc ''# Waitlist Signups'' @ [0xA, 0xA] @ newLine 1 n ts)"
    by metis
  show ?thesis using h ne unfolding n_def ts_def by (rule conjI)
qed

text \<open>For \<open>new@x.com\<close> on the empty reference store.\<close>

theorem created_document_lacks_blank_line_witness:
  "handler (mem_store ascii_lower)
     \<lparr>http_method = ''POST'', body = JObj [(asc ''email'', JStr (asc ''new@x.com''))]\<rparr>
     \<lparr>document = None, clock = asc ''2024-01-15T10:00:00.000Z'', version = 0\<rparr> =
   (Responded (respond 200 (MessageCount ''You're on the list! We'll be in touch soon.'' 1)),
    [Fetch,
     Write \<lparr>content = asc ''# Waitlist Signups'' @ [0xA] @ asc ''1. new@x.com '' @ [0x2014] @
                        asc '' 2024-01-15'' @ [0xA],
            sha = None\<rparr>],
    \<lparr>document = Some (asc ''# Waitlist Signups'' @ [0xA] @ asc ''1. new@x.com '' @ [0x2014] @
                        asc '' 2024-01-15'' @ [0xA], asc ''v0''),
     clock = asc ''2024-01-15T10:00:00.000Z'', version = 1\<rparr>)"
proof -
  define t where "t = asc ''2024-01-15T10:00:00.000Z''"
  define w0 where "w0 = \<lparr>document = None, clock = t, version = 0\<rparr>"
  define e where "e = asc ''new@x.com''"
  define doc where "doc = asc ''# Waitlist Signups'' @ [0xA] @ asc ''1. new@x.com '' @ [0x2014] @
                        asc '' 2024-01-15'' @ [0xA]"
  define v where "v = asc ''v0''"
  define new where "new = asc ''# Waitlist Signups'' @ 0xA # newLine (Suc 0) (ascii_lower e) (timestamp t)"
  have sent: "toWellFormed new = doc"
    unfolding new_def e_def t_def doc_def by code_simp
  have sent': "asc ''# Waitlist Signups'' @ 0xA #
      toWellFormed (newLine (Suc 0) (ascii_lower e) (timestamp t)) = doc"
    unfolding e_def t_def doc_def by code_simp
  have h1: "isValidEmail (JStr e) = Inr True" unfolding e_def by code_simp
  have h2: "getFile (mem_store ascii_lower) w0 = (Inr JsonFalsy, w0)"
    by (simp add: mem_getFile w0_def)
  have ver: "0x76 # decimal 0 = v" unfolding v_def by code_simp
  have "updateFile (mem_store ascii_lower) new None w0 =
      (Inr JsonOther, \<lparr>document = Some (doc, v), clock = t, version = 1\<rparr>)"
    using mem_updateFile_create[of w0 ascii_lower new]
    by (simp add: w0_def sent ver)
  then have h3: "updateFile (mem_store ascii_lower)
      (asc ''# Waitlist Signups'' @ 0xA #
         newLine 1 (toLowerCase (mem_store ascii_lower) e)
           (timestamp (toISOString (mem_store ascii_lower) w0)))
      None w0 =
      (Inr JsonOther, \<lparr>document = Some (doc, v), clock = t, version = 1\<rparr>)"
    by (simp add: mem_store_fields w0_def new_def)
  have "handler (mem_store ascii_lower)
     \<lparr>http_method = ''POST'', body = JObj [(asc ''email'', JStr e)]\<rparr> w0 =
     (Responded (respond 200 (MessageCount ''You're on the list! We'll be in touch soon.'' 1)),
      [Fetch, Write \<lparr>content = doc, sha = None\<rparr>],
      \<lparr>document = Some (doc, v), clock = t, version = 1\<rparr>)"
    using created_document_lacks_blank_line[OF h1 h2 h3]
    by (simp add: mem_store_fields w0_def sent')
  then show ?thesis unfolding w0_def e_def doc_def v_def t_def .
qed

subsection \<open>The count\<close>

text \<open>
  Claim C8. A GET is always answered 200, after one fetch: with the number of decoded
  entries when the fetch gives a file, and with 0 when the document is absent, when the
  fetch fails in any way, and when what it gives cannot be decoded.
\<close>

theorem getCount_degrades: "handler P \<lparr>http_method = ''GET'', body = b\<rparr> w =
     (Responded (respond 200 (Count
        (case fst (getFile P w) of
           Inr (JsonFile c s) \<Rightarrow> length (parseEmails (toLowerCase P) c)
         | _ \<Rightarrow> 0))),
      [Fetch], snd (getFile P w))"
  by (simp add: handler_def split: prod.splits sum.splits json_value.splits)

text \<open>On a stored document with one entry.\<close>

theorem getCount_degrades_witness:
  "handler (mem_store ascii_lower) \<lparr>http_method = ''GET'', body = JUndefined\<rparr>
     \<lparr>document = Some (asc ''1. a@b.c '' @ [0x2014] @ asc '' 2024-01-14'' @ [0xA], asc ''v0''),
      clock = asc ''2024-01-15T10:00:00.000Z'', version = 1\<rparr> =
   (Responded (respond 200 (Count 1)), [Fetch],
    \<lparr>document = Some (asc ''1. a@b.c '' @ [0x2014] @ asc '' 2024-01-14'' @ [0xA], asc ''v0''),
      clock = asc ''2024-01-15T10:00:00.000Z'', version = 1\<rparr>)"
proof -
  define c where "c = asc ''1. a@b.c '' @ [0x2014] @ asc '' 2024-01-14'' @ [0xA]"
  define w where "w = \<lparr>document = Some (c, asc ''v0''),
      clock = asc ''2024-01-15T10:00:00.000Z'', version = 1\<rparr>"
  have p: "length (parseEmails ascii_lower c) = 1"
    unfolding c_def by code_simp
  have "handler (mem_store ascii_lower) \<lparr>http_method = ''GET'', body = JUndefined\<rparr> w =
      (Responded (respond 200 (Count 1)), [Fetch], w)"
    using getCount_degrades[of "mem_store ascii_lower" JUndefined w]
    by (simp add: mem_getFile mem_store_fields p w_def)
  then show ?thesis unfolding w_def c_def .
qed

subsection \<open>A duplicate is answered before any write\<close>

text \<open>
  Claim C9. Whenever an attempt (at any value of the loop counter below 3) fetches a
  file in which the normalized email is already decoded, the loop ends there with the
  409 response carrying the number of entries: the only thing done is that fetch, no
  write is sent, and the world is as the fetch left it. So does the handler, when this
  is its first attempt for a valid email.
\<close>

theorem duplicate_no_write:
  assumes "getFile P w = (Inr (JsonFile c s), w1)"
    and "n \<in> set (parseEmails (toLowerCase P) c)"
  shows "(\<forall>i<3. retry P n i w =
           (Responded (respond 409 (ErrorCount ''You're already on the waitlist!''
              (length (parseEmails (toLowerCase P) c)))), [Fetch], w1)) \<and>
         (\<forall>e. isValidEmail (JStr e) = Inr True \<and> toLowerCase P e = n \<longrightarrow>
            handler P \<lparr>http_method = ''POST'', body = JObj [(asc ''email'', JStr e)]\<rparr> w =
              (Responded (respond 409 (ErrorCount ''You're already on the waitlist!''
                 (length (parseEmails (toLowerCase P) c)))), [Fetch], w1))"
proof -
  have r: "retry P n i w =
           (Responded (respond 409 (ErrorCount ''You're already on the waitlist!''
              (length (parseEmails (toLowerCase P) c)))), [Fetch], w1)" if "i < 3" for i
    using assms that by (simp add: retry.simps[of P n i w] attempt_def)
  have h: "handler P \<lparr>http_method = ''POST'', body = JObj [(asc ''email'', JStr e)]\<rparr> w =
           (Responded (respond 409 (ErrorCount ''You're already on the waitlist!''
              (length (parseEmails (toLowerCase P) c)))), [Fetch], w1)"
    if "isValidEmail (JStr e) = Inr True" "toLowerCase P e = n" for e
    using r[of 0] that by (simp add: handler_post)
  from r h show ?thesis by blast
qed

text \<open>For \<open>a@b.c\<close> on a stored document that has it.\<close>

theorem duplicate_no_write_witness:
  "retry (mem_store ascii_lower) (asc ''a@b.c'') 0
     \<lparr>document = Some (asc ''1. a@b.c '' @ [0x2014] @ asc '' 2024-01-14'' @ [0xA], asc ''v0''),
      clock = asc ''2024-01-15T10:00:00.000Z'', version = 1\<rparr> =
   (Responded (respond 409 (ErrorCount ''You're already on the waitlist!'' 1)), [Fetch],
    \<lparr>document = Some (asc ''1. a@b.c '' @ [0x2014] @ asc '' 2024-01-14'' @ [0xA], asc ''v0''),
      clock = asc ''2024-01-15T10:00:00.000Z'', version = 1\<rparr>)"
proof -
  define c where "c = asc ''1. a@b.c '' @ [0x2014] @ asc '' 2024-01-14'' @ [0xA]"
  define n where "n = asc ''a@b.c''"
  define w where "w = \<lparr>document = Some (c, asc ''v0''),
      clock = asc ''2024-01-15T10:00:00.000Z'', version = 1\<rparr>"
  have p: "parseEmails ascii_lower c = [n]" unfolding c_def n_def by code_simp
  have h1: "getFile (mem_store ascii_lower) w = (Inr (JsonFile c (Some (asc ''v0''))), w)"
    by (simp add: mem_getFile w_def)
  have h2: "n \<in> set (parseEmails (toLowerCase (mem_store ascii_lower)) c)"
    by (simp add: mem_store_fields p)
  have "retry (mem_store ascii_lower) n 0 w =
      (Responded (respond 409 (ErrorCount ''You're already on the waitlist!'' 1)), [Fetch], w)"
    using duplicate_no_write[OF h1 h2] by (simp add: mem_store_fields p)
  then show ?thesis unfolding w_def c_def n_def .
qed

subsection \<open>An email that is not a string\<close>

text \<open>
  Claim C10. The handler can throw before the retry loop. \<open>isValidEmail\<close> tests the
  pattern on \<open>ToString\<close> of its argument and compares its \<open>length\<close>: an array with the
  single element \<open>e\<close>, a string that matches the pattern, converts to \<open>e\<close> and has
  length 1, so it is truthy and valid. Then \<open>email.trim()\<close> is called on the array,
  which has no such method: a TypeError outside the \<open>try\<close>, with no response. (An
  object with a property \<open>toString\<close> makes the handler throw as well, already in
  \<open>isValidEmail\<close>: lemma \<open>object_with_toString_throws\<close>.)
\<close>

theorem array_email_throws:
  assumes "email_test e"
  shows "handler P \<lparr>http_method = ''POST'', body = JObj [(asc ''email'', JArr [JStr e])]\<rparr> w =
           (Threw TypeError, [], w)"
  using assms
  by (simp add: handler_def body_email_def isValidEmail_def normalizedEmail_def Let_def)

text \<open>For the body \<^verbatim>\<open>{"email": ["a@b.co"]}\<close>.\<close>

theorem array_email_throws_witness:
  "handler (mem_store ascii_lower)
     \<lparr>http_method = ''POST'', body = JObj [(asc ''email'', JArr [JStr (asc ''a@b.co'')])]\<rparr>
     \<lparr>document = None, clock = asc ''2024-01-15T10:00:00.000Z'', version = 0\<rparr> =
   (Threw TypeError, [], \<lparr>document = None, clock = asc ''2024-01-15T10:00:00.000Z'', version = 0\<rparr>)"
proof -
  have "email_test (asc ''a@b.co'')" by code_simp
  then show ?thesis by (rule array_email_throws)
qed

end
